theory Spec2Isabelle
  imports Main "HOL-Library.AList"
begin

section \<open>Distance vector routing on a simulated network (dvr.py)\<close>

subsection \<open>Data model\<close>

text \<open>
  \<^verbatim>\<open>DistanceVector: TypeAlias = dict[str, tuple[int, str | None]]\<close>.
  A Python dict keeps its keys in insertion order and \<^verbatim>\<open>log_dv\<close> prints in that
  order, so the table is an association list with the dict's two operations:
  \<open>map_of\<close> reads a key, \<open>AList.update\<close> overwrites the value of a present key in
  place and appends an absent key at the end. Python's unbounded \<^verbatim>\<open>int\<close> is \<open>int\<close>.
\<close>

type_synonym DistanceVector = "(string \<times> (int \<times> string option)) list"

text \<open>
  Router objects live in the list \<^verbatim>\<open>Network._nodes\<close>; a reference to a Router (and
  to the dict it owns) is its position in that list.

  \<^verbatim>\<open>Datagram: TypeAlias = tuple[str, 'DistanceVector']\<close>. The source builds a
  datagram as \<^verbatim>\<open>(self._name, self._dv)\<close>: the second component is the sender's
  dict object itself, not a copy. The model keeps that: the payload is the reference
  to the dict (the position of the Router that owns it) and is read through the
  store when the datagram is delivered.
\<close>

type_synonym Datagram = "string \<times> nat"

record Link =
  cost :: int
  destination :: nat

record Router =
  name :: string
  links :: "Link list"
  dv :: DistanceVector

text \<open>
  The running program: the Router objects, the threads started by \<^verbatim>\<open>Link.send\<close>
  that have not yet finished (each holds its link and its datagram), the lines printed
  on standard output, and the number of Routers the main thread has already started in
  the loop of \<^verbatim>\<open>Network.dvr_start\<close>.
\<close>

record Sim =
  nodes :: "Router list"
  threads :: "(Link \<times> Datagram) list"
  console :: "string list"
  started :: nat

datatype py_error = KeyError string | ValueError | OverflowError | RuntimeError

subsection \<open>Printing\<close>

definition digit_char :: "nat \<Rightarrow> char" where
  "digit_char d = char_of (48 + d)"

fun str_nat :: "nat \<Rightarrow> string" where
  "str_nat n = (if n < 10 then [digit_char n] else str_nat (n div 10) @ [digit_char (n mod 10)])"

definition str_int :: "int \<Rightarrow> string" where
  "str_int i = (if i < 0 then CHR ''-'' # str_nat (nat (- i)) else str_nat (nat i))"

definition str_hop :: "string option \<Rightarrow> string" where
  "str_hop h = (case h of None \<Rightarrow> ''None'' | Some s \<Rightarrow> s)"

text \<open>
  \<^verbatim>\<open>log_dv\<close>: a header line, one line per entry of the table in dict order, and an
  empty line.
\<close>

definition log_dv :: "string \<Rightarrow> DistanceVector \<Rightarrow> string list" where
  "log_dv source_name d =
     (''DV of router '' @ source_name @ '':'') #
     map (\<lambda>(node_name, (c, next_hop)).
            ''Node: '' @ node_name @ '', Cost: '' @ str_int c @ '', Next hop: '' @ str_hop next_hop) d
     @ [[]]"

subsection \<open>Link\<close>

text \<open>\<^verbatim>\<open>Link.get_info\<close> reads the name of the destination Router.\<close>

definition get_info :: "Router list \<Rightarrow> Link \<Rightarrow> int \<times> string" where
  "get_info rs l = (cost l, name (rs ! destination l))"

text \<open>\<^verbatim>\<open>Link.send\<close> starts a thread that will run \<^verbatim>\<open>_send\<close> on the datagram.\<close>

definition send :: "Link \<Rightarrow> Datagram \<Rightarrow> Sim \<Rightarrow> Sim" where
  "send l data st = st\<lparr>threads := threads st @ [(l, data)]\<rparr>"

subsection \<open>Router\<close>

definition Router_init :: "string \<Rightarrow> Router" where
  "Router_init nm = \<lparr>name = nm, links = [], dv = []\<rparr>"

definition connect :: "Link \<Rightarrow> Router \<Rightarrow> Router" where
  "connect l r = r\<lparr>links := links r @ [l]\<rparr>"

text \<open>
  \<^verbatim>\<open>_find_neighbors\<close>: for every outgoing link, in order,
  \<^verbatim>\<open>self._dv[neighbor_name] = (cost, neighbor_name)\<close>.
\<close>

definition find_neighbors :: "Router list \<Rightarrow> Router \<Rightarrow> Router" where
  "find_neighbors rs r =
     r\<lparr>dv := foldl (\<lambda>d l. case get_info rs l of
                               (c, neighbor_name) \<Rightarrow> AList.update neighbor_name (c, Some neighbor_name) d)
                  (dv r) (links r)\<rparr>"

text \<open>
  \<^verbatim>\<open>_broadcast_dv\<close> of the Router at position \<open>i\<close>: one \<^verbatim>\<open>send\<close> per outgoing
  link, each with the datagram \<^verbatim>\<open>(self._name, self._dv)\<close>.
\<close>

definition broadcast_dv :: "nat \<Rightarrow> Sim \<Rightarrow> Sim" where
  "broadcast_dv i st =
     foldl (\<lambda>s l. send l (name (nodes st ! i), i) s) st (links (nodes st ! i))"

text \<open>
  \<^verbatim>\<open>Router.dvr_start\<close>, run as one step (the Router holds its own lock from the
  first to the last statement).
\<close>

definition dvr_start :: "nat \<Rightarrow> Sim \<Rightarrow> Sim" where
  "dvr_start i st =
     (let r = nodes st ! i;
          r1 = r\<lparr>dv := AList.update (name r) (0, None) (dv r)\<rparr>;
          st1 = st\<lparr>nodes := (nodes st)[i := r1], console := console st @ log_dv (name r1) (dv r1)\<rparr>;
          r2 = find_neighbors (nodes st1) r1;
          st2 = st1\<lparr>nodes := (nodes st1)[i := r2]\<rparr>
      in broadcast_dv i st2)"

text \<open>
  The body of the loop of \<^verbatim>\<open>receive\<close> for one entry of the received table; the
  state of the loop is the local table and the flag \<^verbatim>\<open>changed\<close>. The condition
  \<^verbatim>\<open>node_name not in self._dv or link_cost + cost < self._dv[node_name][0]\<close>
  is evaluated left to right, so the lookup never fails.
\<close>

definition relax :: "string \<Rightarrow> int \<Rightarrow> DistanceVector \<times> bool \<Rightarrow> string \<times> (int \<times> string option)
                     \<Rightarrow> DistanceVector \<times> bool" where
  "relax sender link_cost acc entry =
     (case acc of (d, changed) \<Rightarrow>
       (case entry of (node_name, (c, next_hop)) \<Rightarrow>
        (case map_of d node_name of
           None \<Rightarrow> (AList.update node_name (link_cost + c, Some sender) d, True)
         | Some (c0, h0) \<Rightarrow>
             if link_cost + c < c0
             then (AList.update node_name (link_cost + c, Some sender) d, True)
             else (d, changed))))"

text \<open>
  The part of \<^verbatim>\<open>Router.receive\<close> that works on the table, after the wait for the
  own entry: \<^verbatim>\<open>link_cost = self._dv[sender][0]\<close> is read once, before the loop,
  and raises \<^verbatim>\<open>KeyError\<close> when the sender is unknown (nothing has been written
  then); the loop runs over the entries of the received table in dict order. The
  result is the new table and the flag \<^verbatim>\<open>changed\<close>.
\<close>

definition receive_dv :: "DistanceVector \<Rightarrow> string \<times> DistanceVector \<Rightarrow> py_error + (DistanceVector \<times> bool)" where
  "receive_dv d data =
     (case data of (sender, received_dv) \<Rightarrow>
        (case map_of d sender of
           None \<Rightarrow> Inl (KeyError sender)
         | Some (link_cost, h) \<Rightarrow> Inr (foldl (relax sender link_cost) (d, False) received_dv)))"

text \<open>
  \<^verbatim>\<open>Router.receive\<close> on the Router at position \<open>i\<close>: the received table is
  read through the reference carried by the datagram, at the time of the call; when
  the flag is set the table is printed and then broadcast.
\<close>

definition receive :: "nat \<Rightarrow> Datagram \<Rightarrow> Sim \<Rightarrow> py_error + Sim" where
  "receive i data st =
     (case data of (sender, ref) \<Rightarrow>
        (let r = nodes st ! i in
           (case receive_dv (dv r) (sender, dv (nodes st ! ref)) of
              Inl e \<Rightarrow> Inl e
            | Inr (d', changed) \<Rightarrow>
                (let st1 = st\<lparr>nodes := (nodes st)[i := r\<lparr>dv := d'\<rparr>]\<rparr> in
                   if changed
                   then Inr (broadcast_dv i (st1\<lparr>console := console st1 @ log_dv (name r) d'\<rparr>))
                   else Inr st1))))"

text \<open>
  The wait at the head of \<^verbatim>\<open>receive\<close>: the call proceeds only once the Router's
  own name is a key of its table.
\<close>

definition initialized :: "Router \<Rightarrow> bool" where
  "initialized r = (name r \<in> fst ` set (dv r))"

text \<open>
  \<^verbatim>\<open>time.sleep(self._cost)\<close> in \<^verbatim>\<open>Link._send\<close>: it raises \<^verbatim>\<open>ValueError\<close> on a
  negative length, and \<^verbatim>\<open>OverflowError\<close> on a length that does not fit the interpreter's
  clock, which counts nanoseconds in 64 bits: more than 9223372036 seconds.
\<close>

definition sleep_limit :: int where
  "sleep_limit = 9223372036"

definition sleep :: "int \<Rightarrow> py_error option" where
  "sleep secs =
     (if secs < 0 then Some ValueError
      else if sleep_limit < secs then Some OverflowError
      else None)"

text \<open>
  One thread started by \<^verbatim>\<open>Link.send\<close> running \<^verbatim>\<open>_send\<close> from its first to its last
  statement with no other thread running in between: the thread at position \<open>k\<close> of the
  pending ones. While the destination is not initialized the thread stays blocked in
  \<^verbatim>\<open>receive\<close>, so it cannot run to its end and there is no step (\<open>None\<close>). An
  exception ends the thread and leaves everything else as it was. The threads of the
  program can also interleave inside the loop of \<^verbatim>\<open>receive\<close>; those executions are the
  subject of the subsection on interleaved executions below, where this uninterrupted
  call is shown to be one of them.
\<close>

definition deliver :: "nat \<Rightarrow> Sim \<Rightarrow> (py_error option \<times> Sim) option" where
  "deliver k st =
     (if k < length (threads st) then
        (case threads st ! k of (l, data) \<Rightarrow>
           let st0 = st\<lparr>threads := take k (threads st) @ drop (Suc k) (threads st)\<rparr> in
           (case sleep (cost l) of
              Some e \<Rightarrow> Some (Some e, st0)
            | None \<Rightarrow>
                if \<not> initialized (nodes st ! destination l) then None
                else (case receive (destination l) data st0 of
                        Inl e \<Rightarrow> Some (Some e, st0)
                      | Inr st' \<Rightarrow> Some (None, st'))))
      else None)"

subsection \<open>Network\<close>

text \<open>\<^verbatim>\<open>itertools.combinations(xs, 2)\<close>: the pairs of positions in lexicographic order.\<close>

fun combinations2 :: "'a list \<Rightarrow> ('a \<times> 'a) list" where
  "combinations2 [] = []"
| "combinations2 (x # xs) = map (Pair x) xs @ combinations2 xs"

text \<open>\<^verbatim>\<open>Network._connect\<close>: one link in each direction, with the same cost.\<close>

definition Network_connect :: "nat \<Rightarrow> nat \<Rightarrow> int \<Rightarrow> Router list \<Rightarrow> Router list" where
  "Network_connect a b c rs =
     (let rs1 = rs[a := connect \<lparr>cost = c, destination = b\<rparr> (rs ! a)]
      in rs1[b := connect \<lparr>cost = c, destination = a\<rparr> (rs1 ! b)])"

text \<open>
  \<^verbatim>\<open>Network.__init__\<close>. \<^verbatim>\<open>zip\<close> stops at the shorter of its two arguments.
  \<^verbatim>\<open>if cost:\<close> is Python's truth test: \<^verbatim>\<open>None\<close> and \<^verbatim>\<open>0\<close> are false, every
  other integer is true. The constructor has no \<^verbatim>\<open>raise\<close> and calls nothing that
  raises on a list of strings and a list of integers or \<^verbatim>\<open>None\<close>; the result is a
  sum so that a statement about failing can be written. \<open>Network_init_body\<close> is one
  turn of the loop, \<open>Network_init_nodes\<close> the list \<^verbatim>\<open>self._nodes\<close> after the loop.
\<close>

definition Network_init_body :: "Router list \<Rightarrow> (nat \<times> nat) \<times> int option \<Rightarrow> Router list" where
  "Network_init_body rs p =
     (case p of ((a, b), c) \<Rightarrow>
        (case c of
           None \<Rightarrow> rs
         | Some n \<Rightarrow> if n \<noteq> 0 then Network_connect a b n rs else rs))"

definition Network_init_nodes :: "string list \<Rightarrow> int option list \<Rightarrow> Router list" where
  "Network_init_nodes node_names costs =
     foldl Network_init_body (map Router_init node_names)
           (zip (combinations2 [0..<length node_names]) costs)"

definition Network_init :: "string list \<Rightarrow> int option list \<Rightarrow> py_error + Sim" where
  "Network_init node_names costs =
     Inr \<lparr>nodes = Network_init_nodes node_names costs, threads = [], console = [], started = 0\<rparr>"

text \<open>
  One turn of the loop of \<^verbatim>\<open>Network.dvr_start\<close> in the main thread: the next
  Router in list order is started. There is no step once all are started.
\<close>

definition Network_dvr_start_step :: "Sim \<Rightarrow> Sim option" where
  "Network_dvr_start_step st =
     (if started st < length (nodes st)
      then Some ((dvr_start (started st) st)\<lparr>started := Suc (started st)\<rparr>)
      else None)"

text \<open>
  The program the file runs:
  \<^verbatim>\<open>Network(['A', 'B', 'C', 'D', 'E'], [1, 6, None, None, 2, 1, None, 3, 7, 2]).dvr_start()\<close>.
\<close>

definition main_network :: "py_error + Sim" where
  "main_network =
     Network_init [''A'', ''B'', ''C'', ''D'', ''E'']
       [Some 1, Some 6, None, None, Some 2, Some 1, None, Some 3, Some 7, Some 2]"

subsection \<open>Executions\<close>

text \<open>
  The threads of the program interleave. Every \<^verbatim>\<open>dvr_start\<close> and every
  \<^verbatim>\<open>receive\<close> runs under the lock of its own Router. An uninterrupted execution is a
  sequence of such whole calls: the main thread starting the next Router, or one
  pending \<^verbatim>\<open>_send\<close> thread running to its end. The order in which pending threads
  run is left open (the sleeps only delay them). The lock of a Router does not keep
  the \<^verbatim>\<open>receive\<close> of a neighbour from reading its table through a datagram, so
  threads also interleave inside the loop of \<^verbatim>\<open>receive\<close>: those executions are
  modelled in the subsection on interleaved executions.
\<close>

datatype event = Start | Deliver nat

definition step :: "event \<Rightarrow> Sim \<Rightarrow> Sim option" where
  "step ev st =
     (case ev of
        Start \<Rightarrow> Network_dvr_start_step st
      | Deliver k \<Rightarrow> map_option snd (deliver k st))"

fun run :: "event list \<Rightarrow> Sim \<Rightarrow> Sim option" where
  "run [] st = Some st"
| "run (ev # evs) st = (case step ev st of None \<Rightarrow> None | Some st' \<Rightarrow> run evs st')"

text \<open>
  A sequence of datagrams handed one after the other to the table part of
  \<^verbatim>\<open>receive\<close> of one Router; a call that raises leaves the table as it was.
\<close>

fun receive_all :: "DistanceVector \<Rightarrow> (string \<times> DistanceVector) list \<Rightarrow> DistanceVector" where
  "receive_all d [] = d"
| "receive_all d (data # rest) =
     (case receive_dv d data of
        Inl e \<Rightarrow> receive_all d rest
      | Inr (d', changed) \<Rightarrow> receive_all d' rest)"

text \<open>
  The state of the program the file runs once the main thread has started its five
  Routers and before any pending thread has run.
\<close>

definition main_started :: Sim where
  "main_started = the (run [Start, Start, Start, Start, Start] (projr main_network))"

text \<open>
  What the constructor is expected to leave in \<^verbatim>\<open>_links\<close> of the Router at position
  \<open>a\<close>, read off the aligned list of pairs and costs: for every pair with a cost that
  is neither \<^verbatim>\<open>None\<close> nor \<^verbatim>\<open>0\<close> and with \<open>a\<close> as one end, a link with that cost to
  the other end, in the order of the list.
\<close>

definition links_from :: "nat \<Rightarrow> ((nat \<times> nat) \<times> int option) list \<Rightarrow> Link list" where
  "links_from a ps =
     concat (map (\<lambda>((x, y), c).
                    case c of
                      None \<Rightarrow> []
                    | Some n \<Rightarrow>
                        if n = 0 then []
                        else (if x = a then [\<lparr>cost = n, destination = y\<rparr>] else []) @
                             (if y = a then [\<lparr>cost = n, destination = x\<rparr>] else [])) ps)"

text \<open>
  What a reader finds in the second component of a datagram: the table the reference
  leads to in the current state.
\<close>

definition payload :: "Sim \<Rightarrow> Datagram \<Rightarrow> DistanceVector" where
  "payload st data = dv (nodes st ! snd data)"

text \<open>Measures of a table used in the proofs: no negative cost, and the sum of the costs.\<close>

definition nonneg_dv :: "DistanceVector \<Rightarrow> bool" where
  "nonneg_dv d = (\<forall>k c h. map_of d k = Some (c, h) \<longrightarrow> 0 \<le> c)"

definition cost_sum :: "DistanceVector \<Rightarrow> int" where
  "cost_sum d = sum_list (map (\<lambda>e. fst (snd e)) d)"

subsection \<open>Shortest paths and convergence\<close>

text \<open>
  A path in the network built by the constructor is a list of links, each leaving the
  Router the previous one leads to; its cost is the sum of the link costs. The
  shortest-path cost from \<open>u\<close> to \<open>v\<close> is the cost of some path from \<open>u\<close> to \<open>v\<close>
  that no path from \<open>u\<close> to \<open>v\<close> undercuts.
\<close>

fun is_path :: "Router list \<Rightarrow> nat \<Rightarrow> Link list \<Rightarrow> nat \<Rightarrow> bool" where
  "is_path rs u [] v = (u = v \<and> u < length rs)"
| "is_path rs u (l # p) v = (u < length rs \<and> l \<in> set (links (rs ! u)) \<and> is_path rs (destination l) p v)"

definition path_cost :: "Link list \<Rightarrow> int" where
  "path_cost p = sum_list (map cost p)"

definition shortest_cost :: "Router list \<Rightarrow> nat \<Rightarrow> nat \<Rightarrow> int \<Rightarrow> bool" where
  "shortest_cost rs u v c =
     ((\<exists>p. is_path rs u p v \<and> path_cost p = c) \<and> (\<forall>p. is_path rs u p v \<longrightarrow> c \<le> path_cost p))"

text \<open>
  A well-formed construction input: unique identifiers, one cost entry per unordered
  pair, every cost either \<^verbatim>\<open>None\<close> or a positive integer. A runnable input is a
  well-formed one whose costs \<^verbatim>\<open>time.sleep\<close> accepts.
\<close>

definition well_formed :: "string list \<Rightarrow> int option list \<Rightarrow> bool" where
  "well_formed node_names costs =
     (distinct node_names \<and>
      length costs = length (combinations2 [0..<length node_names]) \<and>
      list_all (\<lambda>c. case c of None \<Rightarrow> True | Some n \<Rightarrow> 0 < n) costs)"

definition runnable :: "string list \<Rightarrow> int option list \<Rightarrow> bool" where
  "runnable node_names costs =
     (well_formed node_names costs \<and>
      list_all (\<lambda>c. case c of None \<Rightarrow> True | Some n \<Rightarrow> n \<le> sleep_limit) costs)"

text \<open>
  The states the program can reach from the freshly built network, the states in
  which every Router has been started and no thread is pending, and what it means
  that every table holds exactly the shortest-path costs: an entry for every Router
  that can be reached, with the shortest-path cost, and no entry for the others.
\<close>

definition reachable :: "string list \<Rightarrow> int option list \<Rightarrow> Sim \<Rightarrow> bool" where
  "reachable node_names costs st = (\<exists>evs. run evs (projr (Network_init node_names costs)) = Some st)"

definition quiescent :: "Sim \<Rightarrow> bool" where
  "quiescent st = (started st = length (nodes st) \<and> threads st = [])"

definition tables_correct :: "string list \<Rightarrow> int option list \<Rightarrow> Sim \<Rightarrow> bool" where
  "tables_correct node_names costs st =
     (\<forall>u < length node_names. \<forall>v < length node_names.
        (case map_of (dv (nodes st ! u)) (node_names ! v) of
           None \<Rightarrow> \<not> (\<exists>p. is_path (Network_init_nodes node_names costs) u p v)
         | Some (c, h) \<Rightarrow> shortest_cost (Network_init_nodes node_names costs) u v c))"

text \<open>
  The invariant of the reachable states. The Routers keep their names and links. A
  started Router has a table with distinct keys, its own entry \<open>(0, None)\<close>, only
  costs of real paths, and for every neighbour a cost of at most the link cost; a
  Router not yet started has the empty table. Every pending thread carries the name
  and the table reference of a started Router over one of its links. And for every
  link of a started Router, either a thread with its current table is pending on the
  link, or the Router at the other end has already relaxed against that table.
\<close>

definition static_ok :: "string list \<Rightarrow> int option list \<Rightarrow> Sim \<Rightarrow> bool" where
  "static_ok node_names costs st =
     (length (nodes st) = length node_names \<and> started st \<le> length node_names \<and>
      (\<forall>u < length node_names.
         name (nodes st ! u) = node_names ! u \<and>
         links (nodes st ! u) = links (Network_init_nodes node_names costs ! u)))"

definition table_ok :: "string list \<Rightarrow> int option list \<Rightarrow> nat \<Rightarrow> DistanceVector \<Rightarrow> bool" where
  "table_ok node_names costs u d =
     (distinct (map fst d) \<and>
      map_of d (node_names ! u) = Some (0, None) \<and>
      (\<forall>(k, (c, h)) \<in> set d.
         \<exists>v < length node_names. k = node_names ! v \<and>
           (\<exists>p. is_path (Network_init_nodes node_names costs) u p v \<and> path_cost p = c)) \<and>
      (\<forall>l \<in> set (links (Network_init_nodes node_names costs ! u)).
         \<exists>c h. map_of d (node_names ! destination l) = Some (c, h) \<and> c \<le> cost l))"

definition tables_ok :: "string list \<Rightarrow> int option list \<Rightarrow> Sim \<Rightarrow> bool" where
  "tables_ok node_names costs st =
     (\<forall>u < length node_names.
        if u < started st then table_ok node_names costs u (dv (nodes st ! u))
        else dv (nodes st ! u) = [])"

definition threads_ok :: "string list \<Rightarrow> int option list \<Rightarrow> Sim \<Rightarrow> bool" where
  "threads_ok node_names costs st =
     (\<forall>(l, (s, j)) \<in> set (threads st).
        j < started st \<and> s = node_names ! j \<and>
        l \<in> set (links (Network_init_nodes node_names costs ! j)))"

definition covered :: "string list \<Rightarrow> Sim \<Rightarrow> nat \<Rightarrow> Link \<Rightarrow> bool" where
  "covered node_names st j l =
     ((l, (node_names ! j, j)) \<in> set (threads st) \<or>
      (destination l < started st \<and>
       (\<forall>(k, (c, h)) \<in> set (dv (nodes st ! j)).
          \<exists>c' h'. map_of (dv (nodes st ! destination l)) k = Some (c', h') \<and> c' \<le> cost l + c)))"

definition links_covered :: "string list \<Rightarrow> int option list \<Rightarrow> Sim \<Rightarrow> bool" where
  "links_covered node_names costs st =
     (\<forall>j < started st. \<forall>l \<in> set (links (Network_init_nodes node_names costs ! j)).
        covered node_names st j l)"

definition net_inv :: "string list \<Rightarrow> int option list \<Rightarrow> Sim \<Rightarrow> bool" where
  "net_inv node_names costs st =
     (static_ok node_names costs st \<and> tables_ok node_names costs st \<and>
      threads_ok node_names costs st \<and> links_covered node_names costs st)"

text \<open>
  The measure that decreases with every step, in lexicographic order: the Routers
  still to start, the table entries still missing, the sum of all recorded costs, and
  the number of pending threads.
\<close>

definition progress :: "Sim \<Rightarrow> nat \<times> nat \<times> nat \<times> nat" where
  "progress st =
     (length (nodes st) - started st,
      sum_list (map (\<lambda>r. length (nodes st) - length (dv r)) (nodes st)),
      nat (sum_list (map (\<lambda>r. cost_sum (dv r)) (nodes st))),
      length (threads st))"

definition progress_rel :: "(Sim \<times> Sim) set" where
  "progress_rel = inv_image (less_than <*lex*> less_than <*lex*> less_than <*lex*> less_than) progress"

text \<open>
  One complete execution of the program the file runs: the five starts, then 43 times
  the oldest pending thread.
\<close>

definition main_events :: "event list" where
  "main_events = replicate 5 Start @ replicate 43 (Deliver 0)"

definition main_final :: Sim where
  "main_final = the (run main_events (projr main_network))"

subsection \<open>Interleaved executions\<close>

text \<open>
  \<^verbatim>\<open>_broadcast_dv\<close> sends the dict \<^verbatim>\<open>self._dv\<close> itself, and \<^verbatim>\<open>receive\<close> iterates over
  it holding the lock of the receiving Router only. So while one \<^verbatim>\<open>receive\<close> is
  inside its loop, the \<^verbatim>\<open>receive\<close> of the Router that sent the datagram may run and
  write to the very dict the loop iterates over.

  A \<^verbatim>\<open>receive\<close> that has passed the wait and read \<^verbatim>\<open>link_cost\<close> is recorded with the
  Router it runs on, the sender's name, the reference to the dict it iterates over,
  \<^verbatim>\<open>link_cost\<close>, the flag \<^verbatim>\<open>changed\<close>, and the state of the dict iterator: the
  position of the next entry and the number of entries the dict had when the iterator
  was made. (The dicts of the program only grow, at the end; a new value for an
  existing key keeps its position.)
\<close>

record Active =
  a_receiver :: nat
  a_sender :: string
  a_received :: nat
  a_link_cost :: int
  a_changed :: bool
  a_position :: nat
  a_used :: nat

record Fine =
  sim :: Sim
  running :: "Active list"

text \<open>
  The steps of an interleaved execution: the main thread starts the next Router; the
  pending thread at position \<open>k\<close> wakes up from its sleep and enters \<^verbatim>\<open>receive\<close>,
  up to the head of the loop; or the running \<^verbatim>\<open>receive\<close> at position \<open>a\<close> asks
  its iterator for the next entry and runs the body of the loop on it, or leaves the
  loop when there is none.
\<close>

datatype fine_event = Start_router | Enter nat | Iterate nat

text \<open>A Router's lock is held while a \<^verbatim>\<open>receive\<close> runs on it.\<close>

definition locked :: "Fine \<Rightarrow> nat \<Rightarrow> bool" where
  "locked fs i = list_ex (\<lambda>act. a_receiver act = i) (running fs)"

text \<open>
  \<^verbatim>\<open>Link._send\<close> up to the head of the loop of \<^verbatim>\<open>receive\<close>: the sleep, the lock (no
  step while another \<^verbatim>\<open>receive\<close> runs on the destination), the wait for the
  initialization, \<^verbatim>\<open>link_cost = self._dv[sender][0]\<close>, \<^verbatim>\<open>changed = False\<close>, and the
  iterator made by the \<^verbatim>\<open>for\<close> statement.
\<close>

definition enter :: "nat \<Rightarrow> Fine \<Rightarrow> (py_error option \<times> Fine) option" where
  "enter k fs =
     (let st = sim fs in
      if k < length (threads st) then
        (case threads st ! k of (l, (sender, ref)) \<Rightarrow>
           let st0 = st\<lparr>threads := take k (threads st) @ drop (Suc k) (threads st)\<rparr>;
               i = destination l in
           (case sleep (cost l) of
              Some e \<Rightarrow> Some (Some e, fs\<lparr>sim := st0\<rparr>)
            | None \<Rightarrow>
                if locked fs i \<or> \<not> initialized (nodes st ! i) then None
                else (case map_of (dv (nodes st ! i)) sender of
                        None \<Rightarrow> Some (Some (KeyError sender), fs\<lparr>sim := st0\<rparr>)
                      | Some (link_cost, h) \<Rightarrow>
                          Some (None,
                            \<lparr>sim = st0,
                             running = running fs @
                               [\<lparr>a_receiver = i, a_sender = sender, a_received = ref,
                                 a_link_cost = link_cost, a_changed = False, a_position = 0,
                                 a_used = length (dv (nodes st ! ref))\<rparr>]\<rparr>))))
      else None)"

text \<open>
  One round of the \<^verbatim>\<open>for\<close> statement of \<^verbatim>\<open>receive\<close>. The dict iterator first compares
  the size of the dict with the size it was made for, and raises \<^verbatim>\<open>RuntimeError\<close>
  (dictionary changed size during iteration) when they differ: the exception leaves
  \<^verbatim>\<open>receive\<close> at once, with the entries written so far in the table and without the
  log and the broadcast. Otherwise the next entry goes through the body of the loop
  (\<open>relax\<close>, on the table of the receiver as it is now); when there is none the call
  ends with the log and the broadcast if \<^verbatim>\<open>changed\<close> is set.
\<close>

definition iterate :: "nat \<Rightarrow> Fine \<Rightarrow> (py_error option \<times> Fine) option" where
  "iterate a fs =
     (if a < length (running fs) then
        (let act = running fs ! a;
             st = sim fs;
             i = a_receiver act;
             received_dv = dv (nodes st ! a_received act);
             others = take a (running fs) @ drop (Suc a) (running fs) in
         if length received_dv \<noteq> a_used act then
           Some (Some RuntimeError, fs\<lparr>running := others\<rparr>)
         else if a_position act < length received_dv then
           (case relax (a_sender act) (a_link_cost act) (dv (nodes st ! i), a_changed act)
                       (received_dv ! a_position act) of
              (d', changed) \<Rightarrow>
                Some (None,
                  \<lparr>sim = st\<lparr>nodes := (nodes st)[i := (nodes st ! i)\<lparr>dv := d'\<rparr>]\<rparr>,
                   running = (running fs)[a := act\<lparr>a_changed := changed,
                                                  a_position := Suc (a_position act)\<rparr>]\<rparr>))
         else
           Some (None,
             \<lparr>sim = (if a_changed act
                     then broadcast_dv i
                            (st\<lparr>console := console st @
                                   log_dv (name (nodes st ! i)) (dv (nodes st ! i))\<rparr>)
                     else st),
              running = others\<rparr>))
      else None)"

definition fine_step :: "fine_event \<Rightarrow> Fine \<Rightarrow> (py_error option \<times> Fine) option" where
  "fine_step ev fs =
     (case ev of
        Start_router \<Rightarrow>
          (if locked fs (started (sim fs)) then None
           else map_option (\<lambda>st. (None, fs\<lparr>sim := st\<rparr>)) (Network_dvr_start_step (sim fs)))
      | Enter k \<Rightarrow> enter k fs
      | Iterate a \<Rightarrow> iterate a fs)"

text \<open>An interleaved execution, with the exceptions its threads died of.\<close>

fun fine_run :: "fine_event list \<Rightarrow> Fine \<Rightarrow> (py_error list \<times> Fine) option" where
  "fine_run [] fs = Some ([], fs)"
| "fine_run (ev # evs) fs =
     (case fine_step ev fs of
        None \<Rightarrow> None
      | Some (e, fs') \<Rightarrow>
          (case fine_run evs fs' of
             None \<Rightarrow> None
           | Some (es, fs'') \<Rightarrow> Some ((case e of None \<Rightarrow> [] | Some x \<Rightarrow> [x]) @ es, fs'')))"

text \<open>
  The state of a \<^verbatim>\<open>receive\<close> of Router \<open>i\<close> that runs alone on the datagram
  \<open>(s, ref)\<close>, after \<open>p\<close> rounds of its loop.
\<close>

definition loop_state :: "Sim \<Rightarrow> nat \<Rightarrow> string \<Rightarrow> nat \<Rightarrow> int \<Rightarrow> nat \<Rightarrow> Fine" where
  "loop_state st i s ref lc p =
     (case foldl (relax s lc) (dv (nodes st ! i), False) (take p (dv (nodes st ! ref))) of
        (d, ch) \<Rightarrow>
          \<lparr>sim = st\<lparr>nodes := (nodes st)[i := (nodes st ! i)\<lparr>dv := d\<rparr>]\<rparr>,
           running = [\<lparr>a_receiver = i, a_sender = s, a_received = ref, a_link_cost = lc,
                        a_changed = ch, a_position = p, a_used = length (dv (nodes st ! ref))\<rparr>]\<rparr>)"

text \<open>
  The pending thread at position \<open>k\<close> run alone from the sleep to the end of
  \<^verbatim>\<open>receive\<close>, on a table of \<open>n\<close> entries: \<open>n\<close> rounds of the loop and the round that
  ends it.
\<close>

definition whole :: "nat \<Rightarrow> nat \<Rightarrow> fine_event list" where
  "whole k n = Enter k # replicate (Suc n) (Iterate 0)"

text \<open>
  The line P - S - R - T with all costs 1, and one of its executions. After the four
  starts the threads P to S, S to P, S to R, R to S, R to T and T to R are pending, in
  this order. The datagram of R reaches T, which learns S and broadcasts. The datagram
  of S enters \<^verbatim>\<open>receive\<close> at R, whose loop runs two rounds and writes the entry for P.
  Then the datagram of R runs through \<^verbatim>\<open>receive\<close> at S, which learns T: the table of
  S grows. The loop at R goes on to its third round. Then the remaining threads run
  alone, oldest first.
\<close>

definition line_network :: Fine where
  "line_network =
     \<lparr>sim = projr (Network_init [''P'', ''S'', ''R'', ''T'']
                                 [Some 1, None, None, Some 1, None, Some 1]),
      running = []\<rparr>"

definition line_events :: "fine_event list" where
  "line_events =
     replicate 4 Start_router @
     whole 4 3 @
     [Enter 2, Iterate 0, Iterate 0] @
     [Enter 2, Iterate 1, Iterate 1, Iterate 1, Iterate 1, Iterate 1] @
     [Iterate 0] @
     whole 0 2 @ whole 0 4 @ whole 0 3 @ whole 0 3 @ whole 0 4 @ whole 0 4 @ whole 0 4"

definition line_final :: Fine where
  "line_final = snd (the (fine_run line_events line_network))"

text \<open>
  The line A - B - C with costs of ten thousand million seconds, and its execution:
  the three starts, then the four pending threads.
\<close>

definition far_network :: Fine where
  "far_network =
     \<lparr>sim = projr (Network_init [''A'', ''B'', ''C''] [Some 10000000000, None, Some 10000000000]),
      running = []\<rparr>"

definition far_events :: "fine_event list" where
  "far_events = replicate 3 Start_router @ replicate 4 (Enter 0)"

definition far_final :: Fine where
  "far_final = snd (the (fine_run far_events far_network))"

section \<open>Properties\<close>

subsection \<open>Auxiliary facts\<close>

declare str_nat.simps [simp del]

lemma relax_fst_cases:
  "map_of (fst (relax s lc (d, b) (k, (c, h)))) x =
     (if x = k then
        (case map_of d k of None \<Rightarrow> Some (lc + c, Some s)
         | Some (c0, h0) \<Rightarrow> if lc + c < c0 then Some (lc + c, Some s) else Some (c0, h0))
      else map_of d x)"
  by (auto simp: relax_def update_conv' split: option.splits)

lemma foldl_relax_map_of:
  "distinct (map fst rcv) \<Longrightarrow>
   map_of (fst (foldl (relax s lc) (d, b) rcv)) x =
     (case map_of rcv x of
        None \<Rightarrow> map_of d x
      | Some (c, h) \<Rightarrow>
          (case map_of d x of None \<Rightarrow> Some (lc + c, Some s)
           | Some (c0, h0) \<Rightarrow> if lc + c < c0 then Some (lc + c, Some s) else Some (c0, h0)))"
proof (induction rcv arbitrary: d b)
  case Nil
  then show ?case by simp
next
  case (Cons e rcv)
  obtain k c h where e: "e = (k, (c, h))" by (cases e) auto
  obtain d1 b1 where r: "relax s lc (d, b) (k, (c, h)) = (d1, b1)" by (cases "relax s lc (d, b) (k, (c, h))")
  have d1: "map_of d1 y =
     (if y = k then
        (case map_of d k of None \<Rightarrow> Some (lc + c, Some s)
         | Some (c0, h0) \<Rightarrow> if lc + c < c0 then Some (lc + c, Some s) else Some (c0, h0))
      else map_of d y)" for y
    using relax_fst_cases [of s lc d b k c h y] r by simp
  from Cons.prems e have knot: "map_of rcv k = None" and dist: "distinct (map fst rcv)"
    by (auto simp: map_of_eq_None_iff)
  have "map_of (fst (foldl (relax s lc) (d1, b1) rcv)) x =
     (case map_of rcv x of
        None \<Rightarrow> map_of d1 x
      | Some (c, h) \<Rightarrow>
          (case map_of d1 x of None \<Rightarrow> Some (lc + c, Some s)
           | Some (c0, h0) \<Rightarrow> if lc + c < c0 then Some (lc + c, Some s) else Some (c0, h0)))"
    by (rule Cons.IH [OF dist])
  then show ?case
    using knot by (simp add: e r d1 split: option.splits)
qed

lemma foldl_send_nodes [simp]: "nodes (foldl (\<lambda>s l. send l dg s) st ls) = nodes st"
  by (induction ls arbitrary: st) (simp_all add: send_def)

lemma foldl_send_console [simp]: "console (foldl (\<lambda>s l. send l dg s) st ls) = console st"
  by (induction ls arbitrary: st) (simp_all add: send_def)

lemma foldl_send_started [simp]: "started (foldl (\<lambda>s l. send l dg s) st ls) = started st"
  by (induction ls arbitrary: st) (simp_all add: send_def)

lemma foldl_send_threads [simp]:
  "threads (foldl (\<lambda>s l. send l dg s) st ls) = threads st @ map (\<lambda>l. (l, dg)) ls"
  by (induction ls arbitrary: st) (simp_all add: send_def)

lemma nodes_broadcast_dv [simp]: "nodes (broadcast_dv i st) = nodes st"
  by (simp add: broadcast_dv_def)

lemma console_broadcast_dv [simp]: "console (broadcast_dv i st) = console st"
  by (simp add: broadcast_dv_def)

lemma started_broadcast_dv [simp]: "started (broadcast_dv i st) = started st"
  by (simp add: broadcast_dv_def)

lemma threads_broadcast_dv [simp]:
  "threads (broadcast_dv i st) =
     threads st @ map (\<lambda>l. (l, (name (nodes st ! i), i))) (links (nodes st ! i))"
  by (simp add: broadcast_dv_def)




lemma relax_mono:
  "map_of d x = Some (c, h) \<Longrightarrow>
   \<exists>c' h'. map_of (fst (relax s lc (d, b) e)) x = Some (c', h') \<and> c' \<le> c"
  by (cases e) (auto simp: relax_def update_conv' split: option.splits)

lemma foldl_relax_mono:
  "map_of d x = Some (c, h) \<Longrightarrow>
   \<exists>c' h'. map_of (fst (foldl (relax s lc) (d, b) rcv)) x = Some (c', h') \<and> c' \<le> c"
proof (induction rcv arbitrary: d b c h)
  case Nil
  then show ?case by simp
next
  case (Cons e rcv)
  obtain d1 b1 where r: "relax s lc (d, b) e = (d1, b1)" by (cases "relax s lc (d, b) e")
  from relax_mono [OF Cons.prems, of s lc b e] r
  obtain c1 h1 where c1: "map_of d1 x = Some (c1, h1)" "c1 \<le> c" by auto
  from Cons.IH [OF c1(1), of b1] obtain c' h' where
    "map_of (fst (foldl (relax s lc) (d1, b1) rcv)) x = Some (c', h')" "c' \<le> c1" by blast
  with c1(2) r show ?case by auto
qed

lemma receive_dv_mono:
  assumes "receive_dv d data = Inr (d', ch)" and "map_of d x = Some (c, h)"
  shows "\<exists>c' h'. map_of d' x = Some (c', h') \<and> c' \<le> c"
proof -
  obtain sender rcv where data: "data = (sender, rcv)" by (cases data)
  from assms(1) data obtain lc h0 where
    "map_of d sender = Some (lc, h0)" "foldl (relax sender lc) (d, False) rcv = (d', ch)"
    by (auto simp: receive_dv_def split: option.splits)
  with foldl_relax_mono [OF assms(2), of sender lc False rcv] show ?thesis by simp
qed

lemma receive_nodes:
  assumes "receive i data st = Inr st'"
  shows "length (nodes st') = length (nodes st)"
    and "j \<noteq> i \<Longrightarrow> nodes st' ! j = nodes st ! j"
    and "i < length (nodes st) \<Longrightarrow>
           \<exists>ch. receive_dv (dv (nodes st ! i)) (fst data, dv (nodes st ! snd data))
                   = Inr (dv (nodes st' ! i), ch) \<and>
                name (nodes st' ! i) = name (nodes st ! i) \<and>
                links (nodes st' ! i) = links (nodes st ! i)"
  using assms
  by (auto simp: receive_def Let_def split: prod.splits sum.splits if_splits)

lemma deliver_cases:
  assumes "deliver k st = Some (e, st')"
  obtains (dropped) "nodes st' = nodes st"
  | (received) l data where "threads st ! k = (l, data)"
      "receive (destination l) data (st\<lparr>threads := take k (threads st) @ drop (Suc k) (threads st)\<rparr>) = Inr st'"
      "initialized (nodes st ! destination l)" "0 \<le> cost l" "e = None"
  using assms
  by (auto simp: deliver_def Let_def sleep_def split: if_splits prod.splits sum.splits option.splits)

lemma deliver_mono:
  assumes "deliver k st = Some (e, st')" and "j < length (nodes st)"
    and "map_of (dv (nodes st ! j)) x = Some (c, h)"
  shows "length (nodes st') = length (nodes st) \<and>
         (\<exists>c' h'. map_of (dv (nodes st' ! j)) x = Some (c', h') \<and> c' \<le> c)"
  using assms(1)
proof (cases rule: deliver_cases)
  case dropped
  with assms show ?thesis by simp
next
  case (received l data)
  let ?st0 = "st\<lparr>threads := take k (threads st) @ drop (Suc k) (threads st)\<rparr>"
  note n = receive_nodes [OF received(2)]
  show ?thesis
  proof (cases "j = destination l")
    case True
    with n(3) assms(2) obtain ch where
      "receive_dv (dv (nodes st ! j)) (fst data, dv (nodes st ! snd data)) = Inr (dv (nodes st' ! j), ch)"
      by auto
    from receive_dv_mono [OF this assms(3)] n(1) show ?thesis by simp
  next
    case False
    with n(1) n(2) [of j] assms(3) show ?thesis by simp
  qed
qed

text \<open>
  C6. Monotonicity. Along any sequence of pending threads running to their end (each
  one a call of \<^verbatim>\<open>receive\<close> on its destination), an entry that exists in the table of
  a Router stays, and its recorded cost in the final state is at most the cost it
  had.
\<close>

theorem cost_never_increases:
  assumes "run (map Deliver ks) st = Some st'" and "j < length (nodes st)"
    and "map_of (dv (nodes st ! j)) dest = Some (c, h)"
  shows "\<exists>c' h'. map_of (dv (nodes st' ! j)) dest = Some (c', h') \<and> c' \<le> c"
  using assms
proof (induction ks arbitrary: st c h)
  case Nil
  then show ?case by simp
next
  case (Cons k ks)
  from Cons.prems(1) obtain e st1 where d: "deliver k st = Some (e, st1)"
    and r: "run (map Deliver ks) st1 = Some st'"
    by (auto simp: step_def split: option.splits)
  from deliver_mono [OF d Cons.prems(2,3)] obtain c1 h1 where
    l: "length (nodes st1) = length (nodes st)" and
    c1: "map_of (dv (nodes st1 ! j)) dest = Some (c1, h1)" "c1 \<le> c" by blast
  from Cons.IH [OF r _ c1(1)] l Cons.prems(2) obtain c' h' where
    "map_of (dv (nodes st' ! j)) dest = Some (c', h')" "c' \<le> c1" by auto
  with c1(2) show ?case by auto
qed



lemma foldl_relax_unchanged:
  "\<forall>(k, (c, nh)) \<in> set rcv. (case map_of d k of None \<Rightarrow> False | Some (c0, h0) \<Rightarrow> \<not> lc + c < c0)
   \<Longrightarrow> foldl (relax s lc) (d, b) rcv = (d, b)"
  by (induction rcv) (auto simp: relax_def split: option.splits)



text \<open>
  C6 at the program's own network: the thread carrying the table of B to A runs; the
  cost A records for C was 6 and is at most 6 afterwards.
\<close>

theorem cost_never_increases_witness:
  "run (map Deliver [2]) main_started = Some (the (run (map Deliver [2]) main_started)) \<and>
   0 < length (nodes main_started) \<and>
   map_of (dv (nodes main_started ! 0)) ''C'' = Some (6, Some ''C'') \<and>
   (\<exists>c' h'. map_of (dv (nodes (the (run (map Deliver [2]) main_started)) ! 0)) ''C'' = Some (c', h')
       \<and> c' \<le> 6)"
proof -
  have h1: "run (map Deliver [2]) main_started = Some (the (run (map Deliver [2]) main_started))"
    by code_simp
  have h2: "0 < length (nodes main_started)" by code_simp
  have h3: "map_of (dv (nodes main_started ! 0)) ''C'' = Some (6, Some ''C'')" by code_simp
  from cost_never_increases [OF h1 h2 h3] h1 h2 h3 show ?thesis by blast
qed

subsection \<open>The constructor\<close>

lemma links_from_Nil [simp]: "links_from a [] = []"
  by (simp add: links_from_def)

lemma links_from_Cons:
  "links_from a (((x, y), c) # ps) =
     (case c of
        None \<Rightarrow> []
      | Some n \<Rightarrow>
          if n = 0 then []
          else (if x = a then [\<lparr>cost = n, destination = y\<rparr>] else []) @
               (if y = a then [\<lparr>cost = n, destination = x\<rparr>] else [])) @ links_from a ps"
  by (simp add: links_from_def)

lemma Network_connect_props:
  assumes "x < length rs" and "y < length rs"
  shows "length (Network_connect x y n rs) = length rs"
    and "name (Network_connect x y n rs ! a) = name (rs ! a)"
    and "dv (Network_connect x y n rs ! a) = dv (rs ! a)"
    and "links (Network_connect x y n rs ! a) =
           links (rs ! a) @ (if x = a then [\<lparr>cost = n, destination = y\<rparr>] else []) @
                            (if y = a then [\<lparr>cost = n, destination = x\<rparr>] else [])"
  using assms
  by (auto simp: Network_connect_def Let_def connect_def nth_list_update)

lemma foldl_connect_props:
  assumes "\<forall>((x, y), c) \<in> set ps. x < length rs \<and> y < length rs"
  shows "length (foldl Network_init_body rs ps) = length rs \<and>
         name (foldl Network_init_body rs ps ! a) = name (rs ! a) \<and>
         dv (foldl Network_init_body rs ps ! a) = dv (rs ! a) \<and>
         links (foldl Network_init_body rs ps ! a) = links (rs ! a) @ links_from a ps"
  using assms
proof (induction ps arbitrary: rs)
  case Nil
  then show ?case by simp
next
  case (Cons p ps)
  obtain x y c where p: "p = ((x, y), c)" by (cases p) auto
  from Cons.prems p have xy: "x < length rs" "y < length rs" by auto
  let ?rs1 = "Network_init_body rs ((x, y), c)"
  have l1: "length ?rs1 = length rs"
    using Network_connect_props(1) [OF xy] by (simp add: Network_init_body_def split: option.splits)
  have n1: "name (?rs1 ! a) = name (rs ! a)" "dv (?rs1 ! a) = dv (rs ! a)"
    using Network_connect_props(2,3) [OF xy] by (simp_all add: Network_init_body_def split: option.splits)
  have k1: "links (?rs1 ! a) = links (rs ! a) @
     (case c of
        None \<Rightarrow> []
      | Some n \<Rightarrow>
          if n = 0 then []
          else (if x = a then [\<lparr>cost = n, destination = y\<rparr>] else []) @
               (if y = a then [\<lparr>cost = n, destination = x\<rparr>] else []))"
    using Network_connect_props(4) [OF xy] by (simp add: Network_init_body_def split: option.splits)
  from Cons.prems l1 have "\<forall>((x, y), c) \<in> set ps. x < length ?rs1 \<and> y < length ?rs1"
    by auto
  from Cons.IH [OF this] show ?case
    by (simp add: p l1 n1 k1 links_from_Cons)
qed

lemma set_combinations2:
  "sorted xs \<Longrightarrow> distinct xs \<Longrightarrow>
     set (combinations2 xs) = {(x, y). x \<in> set xs \<and> y \<in> set xs \<and> x < (y::nat)}"
  by (induction xs) (auto simp: less_le)

lemma distinct_combinations2: "distinct xs \<Longrightarrow> distinct (combinations2 xs)"
proof (induction xs)
  case Nil
  then show ?case by simp
next
  case (Cons x xs)
  have "set (combinations2 ys) \<subseteq> set ys \<times> set ys" for ys :: "'a list"
    by (induction ys) auto
  with Cons show ?case
    by (auto simp: distinct_map inj_on_def)
qed

lemma length_combinations2: "length (combinations2 xs) = length xs * (length xs - 1) div 2"
proof (induction xs)
  case Nil
  then show ?case by simp
next
  case (Cons x xs)
  have "length xs + length xs * (length xs - 1) div 2 = (length xs + 1) * length xs div 2"
    by (cases "length xs") (simp_all add: algebra_simps)
  with Cons show ?case by simp
qed

lemma Network_init_nodes_props:
  "length (Network_init_nodes names costs) = length names"
  "a < length names \<Longrightarrow> name (Network_init_nodes names costs ! a) = names ! a"
  "a < length names \<Longrightarrow> dv (Network_init_nodes names costs ! a) = []"
  "a < length names \<Longrightarrow> links (Network_init_nodes names costs ! a) =
                     links_from a (zip (combinations2 [0..<length names]) costs)"
proof -
  let ?ps = "zip (combinations2 [0..<length names]) costs"
  let ?rs = "map Router_init names"
  have "\<forall>((x, y), c) \<in> set ?ps. x < length ?rs \<and> y < length ?rs"
  proof -
    have "\<forall>p \<in> set (combinations2 [0..<length names]). fst p < length names \<and> snd p < length names"
      by (auto simp: set_combinations2)
    then show ?thesis
      by (auto dest!: set_zip_leftD)
  qed
  note f = foldl_connect_props [OF this]
  show "length (Network_init_nodes names costs) = length names"
    using f [of 0] by (simp add: Network_init_nodes_def)
  show "a < length names \<Longrightarrow> name (Network_init_nodes names costs ! a) = names ! a"
    using f [of a] by (simp add: Network_init_nodes_def Router_init_def)
  show "a < length names \<Longrightarrow> dv (Network_init_nodes names costs ! a) = []"
    using f [of a] by (simp add: Network_init_nodes_def Router_init_def)
  show "a < length names \<Longrightarrow> links (Network_init_nodes names costs ! a) =
                     links_from a (zip (combinations2 [0..<length names]) costs)"
    using f [of a] by (simp add: Network_init_nodes_def Router_init_def)
qed

lemma links_from_E:
  assumes "l \<in> set (links_from a ps)"
  obtains x y where "((x, y), Some (cost l)) \<in> set ps" "cost l \<noteq> 0"
    "(x = a \<and> y = destination l) \<or> (y = a \<and> x = destination l)"
  using assms
  by (auto simp: links_from_def split: option.splits if_splits)

lemma foldl_body_zero:
  "k < length cs \<Longrightarrow> cs ! k = Some 0 \<Longrightarrow>
   foldl Network_init_body rs (zip ps (cs[k := None])) = foldl Network_init_body rs (zip ps cs)"
proof (induction ps arbitrary: cs k rs)
  case Nil
  then show ?case by simp
next
  case (Cons p ps)
  then obtain c cs' where cs: "cs = c # cs'" by (cases cs) auto
  show ?case
  proof (cases k)
    case 0
    with Cons.prems cs show ?thesis
      by (cases p) (simp add: Network_init_body_def)
  next
    case (Suc k')
    with Cons.prems cs Cons.IH [of k' cs'] show ?thesis by simp
  qed
qed

lemma foldl_body_no_cost:
  "foldl Network_init_body rs (zip ps (replicate m None)) = rs"
proof (induction ps arbitrary: m)
  case Nil
  then show ?case by simp
next
  case (Cons p ps)
  then show ?case by (cases m; cases p) (simp_all add: Network_init_body_def)
qed

lemma foldl_body_trailing:
  "foldl Network_init_body rs (zip ps (cs @ replicate m None)) = foldl Network_init_body rs (zip ps cs)"
proof (induction ps arbitrary: cs rs)
  case Nil
  then show ?case by simp
next
  case (Cons p ps)
  show ?case
  proof (cases cs)
    case Nil
    then show ?thesis using foldl_body_no_cost [of rs "p # ps" m] by simp
  next
    case (Cons c cs')
    then show ?thesis using Cons.IH [of _ cs'] by simp
  qed
qed

lemma no_link_without_cost:
  assumes k: "k < length (combinations2 [0..<length names])"
    and p: "combinations2 [0..<length names] ! k = (a, b)"
    and c: "length costs \<le> k \<or> costs ! k = None \<or> costs ! k = Some 0"
  shows "\<forall>l \<in> set (links (Network_init_nodes names costs ! a)). destination l \<noteq> b"
    and "\<forall>l \<in> set (links (Network_init_nodes names costs ! b)). destination l \<noteq> a"
proof -
  let ?ps = "combinations2 [0..<length names]"
  have d: "distinct ?ps" by (simp add: distinct_combinations2)
  from k p have "(a, b) \<in> set ?ps" by (metis nth_mem)
  then have ab: "a < length names" "b < length names" "a < b"
    by (auto simp: set_combinations2)
  have ba: "(b, a) \<notin> set ?ps" using ab by (auto simp: set_combinations2)
  have none: "((a, b), Some n) \<in> set (zip ?ps costs) \<Longrightarrow> n = 0" for n
  proof -
    assume "((a, b), Some n) \<in> set (zip ?ps costs)"
    then obtain j where j: "j < length ?ps" "j < length costs" "?ps ! j = (a, b)" "costs ! j = Some n"
      by (auto simp: in_set_zip)
    with d k p have "j = k" by (metis nth_eq_iff_index_eq)
    with j c show "n = 0" by auto
  qed
  have nob: "((b, a), c') \<notin> set (zip ?ps costs)" for c'
    using ba by (auto dest: set_zip_leftD)
  show "\<forall>l \<in> set (links (Network_init_nodes names costs ! a)). destination l \<noteq> b"
  proof
    fix l assume "l \<in> set (links (Network_init_nodes names costs ! a))"
    then have "l \<in> set (links_from a (zip ?ps costs))"
      by (simp add: Network_init_nodes_props(4) [OF ab(1)])
    then show "destination l \<noteq> b"
      using none nob ab by (elim links_from_E) auto
  qed
  show "\<forall>l \<in> set (links (Network_init_nodes names costs ! b)). destination l \<noteq> a"
  proof
    fix l assume "l \<in> set (links (Network_init_nodes names costs ! b))"
    then have "l \<in> set (links_from b (zip ?ps costs))"
      by (simp add: Network_init_nodes_props(4) [OF ab(2)])
    then show "destination l \<noteq> a"
      using none nob ab by (elim links_from_E) auto
  qed
qed

text \<open>
  C10. A cost entry \<^verbatim>\<open>0\<close> is treated as \<^verbatim>\<open>None\<close>, and a short cost list leaves the
  trailing pairs without link. The constructor returns a network for every input;
  replacing an entry \<^verbatim>\<open>0\<close> by \<^verbatim>\<open>None\<close> gives the same result, and so does appending
  any number of \<^verbatim>\<open>None\<close> entries; and for the pair at position \<open>k\<close> of the
  lexicographic enumeration, when the cost list has no entry at \<open>k\<close> or the entry is
  \<^verbatim>\<open>None\<close> or \<^verbatim>\<open>0\<close>, neither Router of the pair has a link to the other.
\<close>

theorem zero_cost_is_no_link:
  "(\<exists>net. Network_init names costs = Inr net) \<and>
   (\<forall>k. k < length costs \<and> costs ! k = Some 0 \<longrightarrow>
        Network_init names (costs[k := None]) = Network_init names costs) \<and>
   (\<forall>m. Network_init names (costs @ replicate m None) = Network_init names costs) \<and>
   (\<forall>k a b. k < length (combinations2 [0..<length names]) \<and>
            combinations2 [0..<length names] ! k = (a, b) \<and>
            (length costs \<le> k \<or> costs ! k = None \<or> costs ! k = Some 0) \<longrightarrow>
        (\<forall>l \<in> set (links (Network_init_nodes names costs ! a)). destination l \<noteq> b) \<and>
        (\<forall>l \<in> set (links (Network_init_nodes names costs ! b)). destination l \<noteq> a))"
proof (intro conjI allI impI ballI)
  show "\<exists>net. Network_init names costs = Inr net" by (simp add: Network_init_def)
next
  fix k assume "k < length costs \<and> costs ! k = Some 0"
  then show "Network_init names (costs[k := None]) = Network_init names costs"
    by (simp add: Network_init_def Network_init_nodes_def foldl_body_zero)
next
  fix m show "Network_init names (costs @ replicate m None) = Network_init names costs"
    by (simp add: Network_init_def Network_init_nodes_def foldl_body_trailing)
next
  fix k a b l
  assume h: "k < length (combinations2 [0..<length names]) \<and>
            combinations2 [0..<length names] ! k = (a, b) \<and>
            (length costs \<le> k \<or> costs ! k = None \<or> costs ! k = Some 0)"
  { assume "l \<in> set (links (Network_init_nodes names costs ! a))"
    with no_link_without_cost(1) [of k names a b costs] h show "destination l \<noteq> b" by blast }
  { assume "l \<in> set (links (Network_init_nodes names costs ! b))"
    with no_link_without_cost(2) [of k names a b costs] h show "destination l \<noteq> a" by blast }
qed

text \<open>
  C10 on three Routers with the costs \<^verbatim>\<open>[0, 2]\<close>: the pair A-B has cost \<^verbatim>\<open>0\<close> and the
  pair B-C has no entry; only A and C are linked.
\<close>

theorem zero_cost_is_no_link_witness:
  "Network_init [''A'', ''B'', ''C''] [Some 0, Some 2] =
     Inr \<lparr>nodes = [\<lparr>name = ''A'', links = [\<lparr>cost = 2, destination = 2\<rparr>], dv = []\<rparr>,
                   \<lparr>name = ''B'', links = [], dv = []\<rparr>,
                   \<lparr>name = ''C'', links = [\<lparr>cost = 2, destination = 0\<rparr>], dv = []\<rparr>],
          threads = [], console = [], started = 0\<rparr> \<and>
   Network_init [''A'', ''B'', ''C''] [None, Some 2] = Network_init [''A'', ''B'', ''C''] [Some 0, Some 2] \<and>
   Network_init [''A'', ''B'', ''C''] [Some 0, Some 2, None] = Network_init [''A'', ''B'', ''C''] [Some 0, Some 2] \<and>
   combinations2 [0..<length [''A'', ''B'', ''C'']] = [(0, 1), (0, 2), (1, 2)] \<and>
   1 \<notin> destination ` set (links (Network_init_nodes [''A'', ''B'', ''C''] [Some 0, Some 2] ! 0)) \<and>
   0 \<notin> destination ` set (links (Network_init_nodes [''A'', ''B'', ''C''] [Some 0, Some 2] ! 1)) \<and>
   2 \<notin> destination ` set (links (Network_init_nodes [''A'', ''B'', ''C''] [Some 0, Some 2] ! 1)) \<and>
   1 \<notin> destination ` set (links (Network_init_nodes [''A'', ''B'', ''C''] [Some 0, Some 2] ! 2))"
proof -
  let ?names = "[''A'', ''B'', ''C'']" and ?costs = "[Some 0, Some 2 :: int option]"
  note t = zero_cost_is_no_link [of ?names ?costs]
  have c: "combinations2 [0..<length ?names] = [(0, 1), (0, 2), (1, 2)]" by code_simp
  have v: "Network_init ?names ?costs =
     Inr \<lparr>nodes = [\<lparr>name = ''A'', links = [\<lparr>cost = 2, destination = 2\<rparr>], dv = []\<rparr>,
                   \<lparr>name = ''B'', links = [], dv = []\<rparr>,
                   \<lparr>name = ''C'', links = [\<lparr>cost = 2, destination = 0\<rparr>], dv = []\<rparr>],
          threads = [], console = [], started = 0\<rparr>" by code_simp
  from t have "0 < length ?costs \<and> ?costs ! 0 = Some 0 \<longrightarrow>
      Network_init ?names (?costs[0 := None]) = Network_init ?names ?costs" by blast
  then have z: "Network_init ?names [None, Some 2] = Network_init ?names ?costs" by simp
  from t have "Network_init ?names (?costs @ replicate 1 None) = Network_init ?names ?costs" by blast
  then have tr: "Network_init ?names [Some 0, Some 2, None] = Network_init ?names ?costs" by simp
  from t have "0 < length (combinations2 [0..<length ?names]) \<and>
            combinations2 [0..<length ?names] ! 0 = (0, 1) \<and>
            (length ?costs \<le> 0 \<or> ?costs ! 0 = None \<or> ?costs ! 0 = Some 0) \<longrightarrow>
        (\<forall>l \<in> set (links (Network_init_nodes ?names ?costs ! 0)). destination l \<noteq> 1) \<and>
        (\<forall>l \<in> set (links (Network_init_nodes ?names ?costs ! 1)). destination l \<noteq> 0)"
    by blast
  then have zero: "1 \<notin> destination ` set (links (Network_init_nodes ?names ?costs ! 0))"
      "0 \<notin> destination ` set (links (Network_init_nodes ?names ?costs ! 1))"
    unfolding c by auto
  from t have "2 < length (combinations2 [0..<length ?names]) \<and>
            combinations2 [0..<length ?names] ! 2 = (1, 2) \<and>
            (length ?costs \<le> 2 \<or> ?costs ! 2 = None \<or> ?costs ! 2 = Some 0) \<longrightarrow>
        (\<forall>l \<in> set (links (Network_init_nodes ?names ?costs ! 1)). destination l \<noteq> 2) \<and>
        (\<forall>l \<in> set (links (Network_init_nodes ?names ?costs ! 2)). destination l \<noteq> 1)"
    by blast
  then have short: "2 \<notin> destination ` set (links (Network_init_nodes ?names ?costs ! 1))"
      "1 \<notin> destination ` set (links (Network_init_nodes ?names ?costs ! 2))"
    unfolding c by auto
  from v z tr c zero short show ?thesis by blast
qed

text \<open>
  C4 as stated fails: the constructor accepts an input that is malformed in all three
  ways at once (one cost for three pairs, the identifier A twice, the cost -1) and
  returns a network.
\<close>

theorem Network_init_accepts_malformed:
  "length [Some (- 1) :: int option] \<noteq> length (combinations2 [0..<length [''A'', ''A'', ''B'']]) \<and>
   \<not> distinct [''A'', ''A'', ''B''] \<and>
   Network_init [''A'', ''A'', ''B''] [Some (- 1)] =
     Inr \<lparr>nodes = [\<lparr>name = ''A'', links = [\<lparr>cost = - 1, destination = 1\<rparr>], dv = []\<rparr>,
                   \<lparr>name = ''A'', links = [\<lparr>cost = - 1, destination = 0\<rparr>], dv = []\<rparr>,
                   \<lparr>name = ''B'', links = [], dv = []\<rparr>],
          threads = [], console = [], started = 0\<rparr>"
  by code_simp

text \<open>
  C4, amended. The constructor validates nothing and returns a network for every
  input: one Router per given identifier, in the given order (duplicates included),
  each with an empty table; the costs are paired with the node pairs in lexicographic
  order up to the shorter of the two lists; every cost that is neither
  \<^verbatim>\<open>None\<close> nor \<^verbatim>\<open>0\<close>, negative ones included, gives one link in each direction, and
  nothing else gives a link.
\<close>

theorem Network_init_no_validation:
  "\<exists>net. Network_init names costs = Inr net \<and>
     map name (nodes net) = names \<and>
     map links (nodes net) =
       map (\<lambda>a. links_from a (zip (combinations2 [0..<length names]) costs)) [0..<length names] \<and>
     map dv (nodes net) = map (\<lambda>n. []) names \<and>
     threads net = [] \<and> console net = []"
proof -
  note p = Network_init_nodes_props [where names = names and costs = costs]
  have "map name (Network_init_nodes names costs) = names"
    by (rule nth_equalityI) (simp_all add: p)
  moreover have "map links (Network_init_nodes names costs) =
       map (\<lambda>a. links_from a (zip (combinations2 [0..<length names]) costs)) [0..<length names]"
    by (rule nth_equalityI) (simp_all add: p)
  moreover have "map dv (Network_init_nodes names costs) = map (\<lambda>n. []) names"
    by (rule nth_equalityI) (simp_all add: p)
  ultimately show ?thesis by (simp add: Network_init_def)
qed

subsection \<open>Start and receive\<close>

lemma dvr_start_nodes:
  "nodes (dvr_start i st) =
     (nodes st)[i := find_neighbors ((nodes st)[i := (nodes st ! i)\<lparr>dv := AList.update (name (nodes st ! i)) (0, None) (dv (nodes st ! i))\<rparr>])
                      ((nodes st ! i)\<lparr>dv := AList.update (name (nodes st ! i)) (0, None) (dv (nodes st ! i))\<rparr>)]"
  by (simp add: dvr_start_def Let_def)

lemma find_neighbors_fields [simp]:
  "name (find_neighbors rs r) = name r" "links (find_neighbors rs r) = links r"
  by (simp_all add: find_neighbors_def)

lemma nonneg_dv_update: "nonneg_dv d \<Longrightarrow> 0 \<le> c \<Longrightarrow> nonneg_dv (AList.update k (c, h) d)"
  by (auto simp: nonneg_dv_def update_conv')

lemma foldl_neighbors_self:
  assumes "\<forall>l \<in> set ls. 0 \<le> cost l \<and> name (rs ! destination l) \<noteq> nm"
    and "map_of d nm = Some v" and "nonneg_dv d"
  shows "map_of (foldl (\<lambda>d l. case get_info rs l of
                               (c, neighbor_name) \<Rightarrow> AList.update neighbor_name (c, Some neighbor_name) d) d ls) nm = Some v
         \<and> nonneg_dv (foldl (\<lambda>d l. case get_info rs l of
                               (c, neighbor_name) \<Rightarrow> AList.update neighbor_name (c, Some neighbor_name) d) d ls)"
  using assms
proof (induction ls arbitrary: d)
  case Nil
  then show ?case by simp
next
  case (Cons l ls)
  let ?d1 = "AList.update (name (rs ! destination l)) (cost l, Some (name (rs ! destination l))) d"
  from Cons.prems have "map_of ?d1 nm = Some v" "nonneg_dv ?d1"
    by (auto simp: update_conv' intro: nonneg_dv_update)
  with Cons.IH [of ?d1] Cons.prems(1) show ?case
    by (simp add: get_info_def)
qed

lemma relax_self:
  assumes "map_of d nm = Some (0, None)" and "nonneg_dv d" and "0 \<le> lc" and "0 \<le> fst (snd e)"
  shows "map_of (fst (relax s lc (d, b) e)) nm = Some (0, None) \<and> nonneg_dv (fst (relax s lc (d, b) e))"
  using assms
  by (cases e) (auto simp: relax_def update_conv' nonneg_dv_def split: option.splits)

lemma foldl_relax_self:
  assumes "map_of d nm = Some (0, None)" and "nonneg_dv d" and "0 \<le> lc"
    and "\<forall>(k, (c, nh)) \<in> set rcv. 0 \<le> c"
  shows "map_of (fst (foldl (relax s lc) (d, b) rcv)) nm = Some (0, None) \<and>
         nonneg_dv (fst (foldl (relax s lc) (d, b) rcv))"
  using assms
proof (induction rcv arbitrary: d b)
  case Nil
  then show ?case by simp
next
  case (Cons e rcv)
  obtain d1 b1 where r: "relax s lc (d, b) e = (d1, b1)" by (cases "relax s lc (d, b) e")
  from Cons.prems have "0 \<le> fst (snd e)" by (cases e) auto
  from relax_self [OF Cons.prems(1,2,3) this, of s b] r
  have "map_of d1 nm = Some (0, None)" "nonneg_dv d1" by simp_all
  from Cons.IH [OF this Cons.prems(3), of b1] Cons.prems(4) r show ?case by simp
qed

lemma receive_dv_self:
  assumes "receive_dv d (sender, rcv) = Inr (d', ch)"
    and "map_of d nm = Some (0, None)" and "nonneg_dv d"
    and "\<forall>(k, (c, nh)) \<in> set rcv. 0 \<le> c"
  shows "map_of d' nm = Some (0, None) \<and> nonneg_dv d'"
proof -
  from assms(1) obtain lc h where s: "map_of d sender = Some (lc, h)"
    and f: "foldl (relax sender lc) (d, False) rcv = (d', ch)"
    by (auto simp: receive_dv_def split: option.splits)
  from s assms(3) have "0 \<le> lc" by (auto simp: nonneg_dv_def)
  from foldl_relax_self [OF assms(2,3) this assms(4), of sender False] f show ?thesis by simp
qed

lemma receive_all_self:
  assumes "map_of d nm = Some (0, None)" and "nonneg_dv d"
    and "\<forall>(sender, rcv) \<in> set dgs. \<forall>(k, (c, nh)) \<in> set rcv. 0 \<le> c"
  shows "map_of (receive_all d dgs) nm = Some (0, None) \<and> nonneg_dv (receive_all d dgs)"
  using assms
proof (induction dgs arbitrary: d)
  case Nil
  then show ?case by simp
next
  case (Cons dg dgs)
  obtain sender rcv where dg: "dg = (sender, rcv)" by (cases dg)
  show ?case
  proof (cases "receive_dv d dg")
    case (Inl e)
    with Cons show ?thesis by simp
  next
    case (Inr res)
    obtain d' ch where res: "res = (d', ch)" by (cases res)
    from Cons.prems(3) dg have "\<forall>(k, (c, nh)) \<in> set rcv. 0 \<le> c" by auto
    from receive_dv_self [OF Inr [unfolded dg res] Cons.prems(1,2) this]
    have "map_of d' nm = Some (0, None)" "nonneg_dv d'" by simp_all
    from Cons.IH [OF this] Cons.prems(3) Inr res show ?thesis by simp
  qed
qed

text \<open>
  C5 as stated fails. When two Routers share an identifier and are linked,
  \<^verbatim>\<open>_find_neighbors\<close> overwrites the self entry during the start itself:
  \<^verbatim>\<open>Network(['A', 'A'], [3])\<close> leaves the first Router with \<open>(3, A)\<close> for its own
  name. And when a link has a negative cost, a datagram with non-negative costs
  overwrites it later: in \<^verbatim>\<open>Network(['A', 'B'], [-1])\<close> the Router A, once started,
  receives \<^verbatim>\<open>('B', {'A': (0, None)})\<close> and sets its own entry to \<open>(-1, B)\<close>.
\<close>

theorem self_entry_overwritten:
  "dv (nodes (dvr_start 0 (projr (Network_init [''A'', ''A''] [Some 3]))) ! 0) =
     [(''A'', (3, Some ''A''))] \<and>
   map_of (dv (nodes (dvr_start 0 (projr (Network_init [''A'', ''A''] [Some 3]))) ! 0)) ''A'' \<noteq>
     Some (0, None) \<and>
   dv (nodes (dvr_start 0 (projr (Network_init [''A'', ''B''] [Some (- 1)]))) ! 0) =
     [(''A'', (0, None)), (''B'', (- 1, Some ''B''))] \<and>
   receive_all (dv (nodes (dvr_start 0 (projr (Network_init [''A'', ''B''] [Some (- 1)]))) ! 0))
     [(''B'', [(''A'', (0, None))])] =
     [(''A'', (- 1, Some ''B'')), (''B'', (- 1, Some ''B''))]"
  by code_simp

text \<open>
  C5, amended. Self-entry invariant. A Router that has not been started (empty table), whose
  links have non-negative costs and lead to Routers with other names, has the entry
  \<open>(0, None)\<close> for its own name once \<^verbatim>\<open>dvr_start\<close> has run, and keeps exactly that entry
  through any sequence of calls of \<^verbatim>\<open>receive\<close> whose datagrams carry non-negative costs
  (the empty sequence gives the state right after the start).
\<close>

theorem self_entry_invariant:
  assumes "i < length (nodes st)" and "dv (nodes st ! i) = []"
    and "\<forall>l \<in> set (links (nodes st ! i)).
           0 \<le> cost l \<and> name (nodes st ! destination l) \<noteq> name (nodes st ! i)"
    and "\<forall>(sender, rcv) \<in> set dgs. \<forall>(k, (c, nh)) \<in> set rcv. 0 \<le> c"
  shows "map_of (receive_all (dv (nodes (dvr_start i st) ! i)) dgs) (name (nodes st ! i)) = Some (0, None)"
proof -
  let ?nm = "name (nodes st ! i)"
  let ?r1 = "(nodes st ! i)\<lparr>dv := [(?nm, (0, None))]\<rparr>"
  let ?rs1 = "(nodes st)[i := ?r1]"
  have names: "name (?rs1 ! j) = name (nodes st ! j)" for j
    using assms(1) by (cases "j = i") simp_all
  have d0: "dv (nodes (dvr_start i st) ! i) = dv (find_neighbors ?rs1 ?r1)"
    using assms(1,2) by (simp add: dvr_start_nodes)
  have l: "\<forall>l \<in> set (links ?r1). 0 \<le> cost l \<and> name (?rs1 ! destination l) \<noteq> ?nm"
    using assms(3) names by simp
  have "map_of [(?nm, (0::int, None::string option))] ?nm = Some (0, None)" by simp
  moreover have "nonneg_dv [(?nm, (0, None))]" by (simp add: nonneg_dv_def)
  ultimately have "map_of (dv (find_neighbors ?rs1 ?r1)) ?nm = Some (0, None) \<and>
      nonneg_dv (dv (find_neighbors ?rs1 ?r1))"
    using foldl_neighbors_self [OF l, of "[(?nm, (0, None))]" "(0, None)"]
    by (simp add: find_neighbors_def)
  with receive_all_self [of "dv (find_neighbors ?rs1 ?r1)" ?nm dgs] assms(4) d0
  show ?thesis by simp
qed

text \<open>
  C5 at Router A of the program's own network, with three datagrams: one from B, one
  from C that offers cost 0 for A itself, and one from an unknown sender (which raises
  and changes nothing).
\<close>

theorem self_entry_invariant_witness:
  "0 < length (nodes (projr main_network)) \<and> dv (nodes (projr main_network) ! 0) = [] \<and>
   list_all (\<lambda>l. 0 \<le> cost l \<and> name (nodes (projr main_network) ! destination l) \<noteq> ''A'')
      (links (nodes (projr main_network) ! 0)) \<and>
   dv (nodes (dvr_start 0 (projr main_network)) ! 0) =
      [(''A'', (0, None)), (''B'', (1, Some ''B'')), (''C'', (6, Some ''C''))] \<and>
   receive_all (dv (nodes (dvr_start 0 (projr main_network)) ! 0))
      [(''B'', [(''B'', (0, None)), (''A'', (1, Some ''A'')), (''C'', (2, Some ''C''))]),
       (''C'', [(''A'', (0, Some ''C'')), (''E'', (7, Some ''E''))]),
       (''Z'', [(''A'', (0, None))])] =
      [(''A'', (0, None)), (''B'', (1, Some ''B'')), (''C'', (3, Some ''B'')), (''E'', (10, Some ''C''))] \<and>
   map_of (receive_all (dv (nodes (dvr_start 0 (projr main_network)) ! 0))
      [(''B'', [(''B'', (0, None)), (''A'', (1, Some ''A'')), (''C'', (2, Some ''C''))]),
       (''C'', [(''A'', (0, Some ''C'')), (''E'', (7, Some ''E''))]),
       (''Z'', [(''A'', (0, None))])]) ''A'' = Some (0, None)"
proof -
  let ?st = "projr main_network"
  let ?dgs = "[(''B'', [(''B'', (0::int, None)), (''A'', (1, Some ''A'')), (''C'', (2, Some ''C''))]),
       (''C'', [(''A'', (0, Some ''C'')), (''E'', (7, Some ''E''))]),
       (''Z'', [(''A'', (0, None))])]"
  have h1: "0 < length (nodes ?st)" by code_simp
  have h2: "dv (nodes ?st ! 0) = []" by code_simp
  have n: "name (nodes ?st ! 0) = ''A''" by code_simp
  have h3': "list_all (\<lambda>l. 0 \<le> cost l \<and> name (nodes ?st ! destination l) \<noteq> ''A'') (links (nodes ?st ! 0))"
    by code_simp
  then have h3: "\<forall>l \<in> set (links (nodes ?st ! 0)).
           0 \<le> cost l \<and> name (nodes ?st ! destination l) \<noteq> name (nodes ?st ! 0)"
    by (simp add: list_all_iff n)
  have h4: "\<forall>(sender, rcv) \<in> set ?dgs. \<forall>(k, (c, nh)) \<in> set rcv. 0 \<le> c" by simp
  have v1: "dv (nodes (dvr_start 0 ?st) ! 0) =
      [(''A'', (0, None)), (''B'', (1, Some ''B'')), (''C'', (6, Some ''C''))]" by code_simp
  have v2: "receive_all (dv (nodes (dvr_start 0 ?st) ! 0)) ?dgs =
      [(''A'', (0, None)), (''B'', (1, Some ''B'')), (''C'', (3, Some ''B'')), (''E'', (10, Some ''C''))]"
    by code_simp
  from self_entry_invariant [OF h1 h2 h3 h4] h1 h2 h3' v1 v2 show ?thesis by (simp add: n)
qed


lemma update_absent: "map_of d k = None \<Longrightarrow> AList.update k v d = d @ [(k, v)]"
  by (induction d) (auto split: if_splits)

lemma length_update_present: "map_of d k = Some v0 \<Longrightarrow> length (AList.update k v d) = length d"
  by (induction d) (auto split: if_splits)

lemma cost_sum_update_present:
  "map_of d k = Some (c0, h0) \<Longrightarrow> cost_sum (AList.update k (c, h) d) = cost_sum d - c0 + c"
  by (induction d) (auto simp: cost_sum_def split: if_splits)

lemma relax_progress:
  assumes "relax s lc (d, b) e = (d', b')"
  shows "(d' = d \<and> b' = b) \<or>
         (b' \<and> (length d < length d' \<or> (length d' = length d \<and> cost_sum d' < cost_sum d)))"
proof -
  obtain k c h where e: "e = (k, (c, h))" by (cases e) auto
  show ?thesis
  proof (cases "map_of d k")
    case None
    with assms e show ?thesis by (auto simp: relax_def update_absent)
  next
    case (Some v)
    obtain c0 h0 where v: "v = (c0, h0)" by (cases v)
    from assms e Some v length_update_present [OF Some [unfolded v]]
      cost_sum_update_present [OF Some [unfolded v]]
    show ?thesis by (auto simp: relax_def split: if_splits)
  qed
qed

lemma foldl_relax_progress:
  assumes "foldl (relax s lc) (d, b) rcv = (d', b')"
  shows "(d' = d \<and> b' = b) \<or>
         (b' \<and> (length d < length d' \<or> (length d' = length d \<and> cost_sum d' < cost_sum d)))"
  using assms
proof (induction rcv arbitrary: d b)
  case Nil
  then show ?case by simp
next
  case (Cons e rcv)
  obtain d1 b1 where r: "relax s lc (d, b) e = (d1, b1)" by (cases "relax s lc (d, b) e")
  with Cons.prems have f: "foldl (relax s lc) (d1, b1) rcv = (d', b')" by simp
  from relax_progress [OF r] Cons.IH [OF f] show ?case by auto
qed

lemma receive_dv_changed:
  assumes "receive_dv d data = Inr (d', ch)"
  shows "ch \<longleftrightarrow> d' \<noteq> d"
    and "ch \<Longrightarrow> length d < length d' \<or> (length d' = length d \<and> cost_sum d' < cost_sum d)"
proof -
  obtain sender rcv where data: "data = (sender, rcv)" by (cases data)
  from assms data obtain lc h where
    f: "foldl (relax sender lc) (d, False) rcv = (d', ch)"
    by (auto simp: receive_dv_def split: option.splits)
  from foldl_relax_progress [OF f] show "ch \<longleftrightarrow> d' \<noteq> d" by auto
  from foldl_relax_progress [OF f]
  show "ch \<Longrightarrow> length d < length d' \<or> (length d' = length d \<and> cost_sum d' < cost_sum d)" by auto
qed






text \<open>
  C3. The datagram is not a copy. In the program's own network, after the five starts
  the thread that carries the datagram of A to C is pending and the datagram reads
  \<open>A: 0, B: 1, C: 6\<close>. When the thread that carries the table of B to A has run, the
  first thread is still pending, and its datagram now reads
  \<open>A: 0, B: 1, C: 3 via B, D: 2 via B\<close>.
\<close>

theorem datagram_in_flight_changes:
  "threads main_started ! 1 = (\<lparr>cost = 6, destination = 2\<rparr>, (''A'', 0)) \<and>
   payload main_started (''A'', 0) =
     [(''A'', (0, None)), (''B'', (1, Some ''B'')), (''C'', (6, Some ''C''))] \<and>
   threads main_started ! 2 = (\<lparr>cost = 1, destination = 0\<rparr>, (''B'', 1)) \<and>
   threads (the (step (Deliver 2) main_started)) ! 1 = (\<lparr>cost = 6, destination = 2\<rparr>, (''A'', 0)) \<and>
   payload (the (step (Deliver 2) main_started)) (''A'', 0) =
     [(''A'', (0, None)), (''B'', (1, Some ''B'')), (''C'', (3, Some ''B'')), (''D'', (2, Some ''B''))]"
  by code_simp

subsection \<open>Convergence of the uninterrupted executions\<close>

lemma links_from_I:
  assumes "((x, y), Some c) \<in> set ps" and "c \<noteq> 0"
  shows "\<lparr>cost = c, destination = y\<rparr> \<in> set (links_from x ps)"
    and "\<lparr>cost = c, destination = x\<rparr> \<in> set (links_from y ps)"
  using assms by (induction ps) (auto simp: links_from_Cons)

lemma distinct_links_from:
  assumes "distinct (map fst ps)" and "\<forall>((x, y), c) \<in> set ps. x < y"
  shows "distinct (map destination (links_from a ps))"
  using assms
proof (induction ps)
  case Nil
  then show ?case by simp
next
  case (Cons q ps)
  obtain x y c where q: "q = ((x, y), c)" by (cases q) auto
  from Cons.prems q have xy: "x < y" and nin: "(x, y) \<notin> fst ` set ps"
    and rest: "\<forall>((x, y), c) \<in> set ps. x < y" by auto
  from Cons have IH: "distinct (map destination (links_from a ps))" by simp
  have no_y: "x = a \<Longrightarrow> y \<notin> destination ` set (links_from a ps)"
  proof
    assume xa: "x = a" and "y \<in> destination ` set (links_from a ps)"
    then obtain l where l: "l \<in> set (links_from a ps)" "destination l = y" by auto
    from l(1) show False
    proof (rule links_from_E)
      fix x' y'
      assume m: "((x', y'), Some (cost l)) \<in> set ps"
        and e: "x' = a \<and> y' = destination l \<or> y' = a \<and> x' = destination l"
      from m rest have "x' < y'" by auto
      with e l(2) xa xy have "(x', y') = (x, y)" by auto
      with m nin show False by force
    qed
  qed
  have no_x: "y = a \<Longrightarrow> x \<notin> destination ` set (links_from a ps)"
  proof
    assume ya: "y = a" and "x \<in> destination ` set (links_from a ps)"
    then obtain l where l: "l \<in> set (links_from a ps)" "destination l = x" by auto
    from l(1) show False
    proof (rule links_from_E)
      fix x' y'
      assume m: "((x', y'), Some (cost l)) \<in> set ps"
        and e: "x' = a \<and> y' = destination l \<or> y' = a \<and> x' = destination l"
      from m rest have "x' < y'" by auto
      with e l(2) ya xy have "(x', y') = (x, y)" by auto
      with m nin show False by force
    qed
  qed
  from IH no_x no_y xy show ?case
    by (auto simp: q links_from_Cons split: option.splits)
qed

lemma runnable_links:
  assumes wf: "runnable names costs" and u: "u < length names"
    and l: "l \<in> set (links (Network_init_nodes names costs ! u))"
  shows "destination l < length names" and "destination l \<noteq> u" and "0 < cost l"
    and "\<lparr>cost = cost l, destination = u\<rparr> \<in> set (links (Network_init_nodes names costs ! destination l))"
    and "sleep (cost l) = None"
proof -
  let ?ps = "zip (combinations2 [0..<length names]) costs"
  from l u have "l \<in> set (links_from u ?ps)" by (simp add: Network_init_nodes_props)
  then obtain x y where m: "((x, y), Some (cost l)) \<in> set ?ps" and nz: "cost l \<noteq> 0"
    and e: "(x = u \<and> y = destination l) \<or> (y = u \<and> x = destination l)"
    by (rule links_from_E)
  from m have "(x, y) \<in> set (combinations2 [0..<length names])" by (rule set_zip_leftD)
  then have xy: "x < length names" "y < length names" "x < y" by (auto simp: set_combinations2)
  from m have "Some (cost l) \<in> set costs" by (rule set_zip_rightD)
  with wf have c: "0 < cost l" "cost l \<le> sleep_limit"
    by (auto simp: runnable_def well_formed_def list_all_iff)
  then show "0 < cost l" by simp
  from c show "sleep (cost l) = None" by (simp add: sleep_def)
  from e xy show "destination l < length names" "destination l \<noteq> u" by auto
  from e links_from_I [OF m nz] xy
  show "\<lparr>cost = cost l, destination = u\<rparr> \<in> set (links (Network_init_nodes names costs ! destination l))"
    by (auto simp: Network_init_nodes_props)
qed

lemma runnable_distinct_links:
  assumes u: "u < length names"
  shows "distinct (map destination (links (Network_init_nodes names costs ! u)))"
proof -
  let ?cs = "combinations2 [0..<length names]"
  have "distinct (map fst (zip ?cs costs))"
    by (simp add: distinct_combinations2 map_fst_zip_take)
  moreover have "\<forall>((x, y), c) \<in> set (zip ?cs costs). x < y"
    by (auto dest!: set_zip_leftD simp: set_combinations2)
  ultimately show ?thesis
    using u by (simp add: Network_init_nodes_props distinct_links_from)
qed

lemma is_path_append:
  "is_path rs u p v \<Longrightarrow> is_path rs v q w \<Longrightarrow> is_path rs u (p @ q) w"
  by (induction p arbitrary: u) auto

lemma path_cost_append [simp]: "path_cost (p @ q) = path_cost p + path_cost q"
  by (simp add: path_cost_def)

lemma path_cost_Nil [simp]: "path_cost [] = 0"
  by (simp add: path_cost_def)

lemma path_cost_Cons [simp]: "path_cost (l # p) = cost l + path_cost p"
  by (simp add: path_cost_def)

lemma is_path_ends:
  "is_path rs u p v \<Longrightarrow> u < length rs \<and> v < length rs"
  by (induction p arbitrary: u) auto

lemma path_cost_nonneg:
  assumes "runnable names costs" and "is_path (Network_init_nodes names costs) u p v"
  shows "0 \<le> path_cost p"
  using assms(2)
proof (induction p arbitrary: u)
  case Nil
  then show ?case by simp
next
  case (Cons l p)
  then have "u < length names" "l \<in> set (links (Network_init_nodes names costs ! u))"
    by (simp_all add: Network_init_nodes_props(1))
  from runnable_links(3) [OF assms(1) this] have "0 < cost l" .
  moreover from Cons.prems have "is_path (Network_init_nodes names costs) (destination l) p v" by simp
  then have "0 \<le> path_cost p" by (rule Cons.IH)
  ultimately show ?case by simp
qed

lemma set_update_subset: "set (AList.update k v d) \<subseteq> insert (k, v) (set d)"
  by (induction d) auto

lemma foldl_update_snoc:
  "foldl (\<lambda>d l. AList.update (kf l) (vf l) d) d0 (ls @ [l]) =
     AList.update (kf l) (vf l) (foldl (\<lambda>d l. AList.update (kf l) (vf l) d) d0 ls)"
  by simp

lemma foldl_update_distinct:
  "distinct (map fst d0) \<Longrightarrow> distinct (map fst (foldl (\<lambda>d l. AList.update (kf l) (vf l) d) d0 ls))"
  by (induction ls rule: rev_induct) (simp_all add: distinct_update)

lemma foldl_update_other:
  "k \<notin> kf ` set ls \<Longrightarrow> map_of (foldl (\<lambda>d l. AList.update (kf l) (vf l) d) d0 ls) k = map_of d0 k"
  by (induction ls rule: rev_induct) (simp_all add: update_conv')

lemma foldl_update_key:
  "distinct (map kf ls) \<Longrightarrow> l \<in> set ls \<Longrightarrow>
     map_of (foldl (\<lambda>d l. AList.update (kf l) (vf l) d) d0 ls) (kf l) = Some (vf l)"
proof (induction ls rule: rev_induct)
  case Nil
  then show ?case by simp
next
  case (snoc x xs)
  show ?case
  proof (cases "l = x")
    case True
    then show ?thesis by (simp add: update_conv')
  next
    case False
    with snoc.prems have lx: "l \<in> set xs" and dx: "distinct (map kf xs)" by auto
    from snoc.prems have "kf x \<notin> kf ` set xs" by simp
    with lx have "kf l \<noteq> kf x" by (metis imageI)
    with lx dx have "l \<in> set xs" "kf l \<noteq> kf x" "distinct (map kf xs)" by simp_all
    with snoc.IH show ?thesis by (simp add: update_conv')
  qed
qed

lemma foldl_update_set:
  "e \<in> set (foldl (\<lambda>d l. AList.update (kf l) (vf l) d) d0 ls) \<Longrightarrow>
     e \<in> set d0 \<or> (\<exists>l \<in> set ls. e = (kf l, vf l))"
proof (induction ls rule: rev_induct)
  case Nil
  then show ?case by simp
next
  case (snoc x xs)
  from snoc.prems set_update_subset [of "kf x" "vf x" "foldl (\<lambda>d l. AList.update (kf l) (vf l) d) d0 xs"]
  have "e = (kf x, vf x) \<or> e \<in> set (foldl (\<lambda>d l. AList.update (kf l) (vf l) d) d0 xs)"
    by auto
  with snoc.IH show ?case by auto
qed

lemma find_neighbors_dv:
  "dv (find_neighbors rs r) =
     foldl (\<lambda>d l. AList.update (name (rs ! destination l)) (cost l, Some (name (rs ! destination l))) d)
           (dv r) (links r)"
  by (simp add: find_neighbors_def get_info_def)

lemma relax_distinct:
  "distinct (map fst d) \<Longrightarrow> distinct (map fst (fst (relax s lc (d, b) e)))"
  by (cases e) (auto simp: relax_def distinct_update split: option.splits)

lemma foldl_relax_distinct:
  "distinct (map fst d) \<Longrightarrow> distinct (map fst (fst (foldl (relax s lc) (d, b) rcv)))"
proof (induction rcv arbitrary: d b)
  case Nil
  then show ?case by simp
next
  case (Cons e rcv)
  obtain d1 b1 where r: "relax s lc (d, b) e = (d1, b1)" by (cases "relax s lc (d, b) e")
  with relax_distinct [OF Cons.prems, of s lc b e] have "distinct (map fst d1)" by simp
  from Cons.IH [OF this, of b1] r show ?case by simp
qed

lemma relax_set:
  assumes "x \<in> set (fst (relax s lc (d, b) e))"
  shows "x \<in> set d \<or> (x = (fst e, (lc + fst (snd e), Some s)))"
proof -
  obtain k c h where e: "e = (k, (c, h))" by (cases e) auto
  from assms set_update_subset [of k "(lc + c, Some s)" d] show ?thesis
    by (auto simp: e relax_def split: option.splits if_splits)
qed

lemma foldl_relax_set:
  "x \<in> set (fst (foldl (relax s lc) (d, b) rcv)) \<Longrightarrow>
     x \<in> set d \<or> (\<exists>e \<in> set rcv. x = (fst e, (lc + fst (snd e), Some s)))"
proof (induction rcv arbitrary: d b)
  case Nil
  then show ?case by simp
next
  case (Cons e rcv)
  obtain d1 b1 where r: "relax s lc (d, b) e = (d1, b1)" by (cases "relax s lc (d, b) e")
  from Cons.prems r have "x \<in> set (fst (foldl (relax s lc) (d1, b1) rcv))" by simp
  from Cons.IH [OF this] relax_set [of _ s lc d b e] r show ?case by fastforce
qed

lemma foldl_relax_covers:
  assumes "distinct (map fst rcv)" and "(k, (c, h)) \<in> set rcv"
  shows "\<exists>c' h'. map_of (fst (foldl (relax s lc) (d, b) rcv)) k = Some (c', h') \<and> c' \<le> lc + c"
proof -
  from assms have "map_of rcv k = Some (c, h)" by simp
  with foldl_relax_map_of [OF assms(1), of s lc d b k] show ?thesis
    by (auto split: option.splits if_splits)
qed

lemma threads_dvr_start:
  "i < length (nodes st) \<Longrightarrow>
     threads (dvr_start i st) =
       threads st @ map (\<lambda>l. (l, (name (nodes st ! i), i))) (links (nodes st ! i))"
  by (simp add: dvr_start_def Let_def)

lemma started_dvr_start [simp]: "started (dvr_start i st) = started st"
  by (simp add: dvr_start_def Let_def)

lemma dvr_start_nodes_other:
  "j \<noteq> i \<Longrightarrow> nodes (dvr_start i st) ! j = nodes st ! j"
  by (simp add: dvr_start_nodes)

lemma dvr_start_nodes_self:
  assumes "i < length (nodes st)"
  shows "name (nodes (dvr_start i st) ! i) = name (nodes st ! i)"
    and "links (nodes (dvr_start i st) ! i) = links (nodes st ! i)"
    and "length (nodes (dvr_start i st)) = length (nodes st)"
  using assms by (simp_all add: dvr_start_nodes)

lemma dvr_start_dv:
  assumes i: "i < length (nodes st)" and e: "dv (nodes st ! i) = []"
  shows "dv (nodes (dvr_start i st) ! i) =
           foldl (\<lambda>d l. AList.update (name (nodes st ! destination l))
                                       (cost l, Some (name (nodes st ! destination l))) d)
                 [(name (nodes st ! i), (0, None))] (links (nodes st ! i))"
proof -
  let ?r1 = "(nodes st ! i)\<lparr>dv := [(name (nodes st ! i), (0, None))]\<rparr>"
  let ?rs1 = "(nodes st)[i := ?r1]"
  have "dv (nodes (dvr_start i st) ! i) = dv (find_neighbors ?rs1 ?r1)"
    using i e by (simp add: dvr_start_nodes)
  also have "\<dots> = foldl (\<lambda>d l. AList.update (name (?rs1 ! destination l))
                                       (cost l, Some (name (?rs1 ! destination l))) d)
                 [(name (nodes st ! i), (0, None))] (links (nodes st ! i))"
    by (simp add: find_neighbors_dv)
  also have "\<dots> = foldl (\<lambda>d l. AList.update (name (nodes st ! destination l))
                                       (cost l, Some (name (nodes st ! destination l))) d)
                 [(name (nodes st ! i), (0, None))] (links (nodes st ! i))"
  proof -
    have "name (?rs1 ! j) = name (nodes st ! j)" for j
      using i by (cases "j = i") simp_all
    then show ?thesis by simp
  qed
  finally show ?thesis .
qed

lemma inj_names:
  "distinct names \<Longrightarrow> a < length names \<Longrightarrow> b < length names \<Longrightarrow> names ! a = names ! b \<Longrightarrow> a = b"
  by (simp add: nth_eq_iff_index_eq)

lemma start_table_ok:
  assumes wf: "runnable names costs" and so: "static_ok names costs st"
    and u: "u < length names" and e: "dv (nodes st ! u) = []"
  shows "table_ok names costs u (dv (nodes (dvr_start u st) ! u))"
proof -
  let ?rs0 = "Network_init_nodes names costs"
  let ?ls = "links (?rs0 ! u)"
  let ?kf = "\<lambda>l. names ! destination l"
  let ?vf = "\<lambda>l. (cost l, Some (names ! destination l))"
  let ?D = "foldl (\<lambda>d l. AList.update (?kf l) (?vf l) d) [(names ! u, (0, None))] ?ls"
  from wf have dn: "distinct names" by (simp add: runnable_def well_formed_def)
  from so u have len: "length (nodes st) = length names" and nm: "name (nodes st ! u) = names ! u"
    and lk: "links (nodes st ! u) = ?ls"
    and names: "\<And>j. j < length names \<Longrightarrow> name (nodes st ! j) = names ! j"
    by (simp_all add: static_ok_def)
  note wl = runnable_links [OF wf u]
  have "dv (nodes (dvr_start u st) ! u) =
           foldl (\<lambda>d l. AList.update (name (nodes st ! destination l))
                                       (cost l, Some (name (nodes st ! destination l))) d)
                 [(name (nodes st ! u), (0, None))] (links (nodes st ! u))"
    using u e by (intro dvr_start_dv) (simp_all add: len)
  also have "\<dots> = ?D"
    unfolding nm lk using wl(1) by (intro foldl_cong) (simp_all add: names)
  finally have D: "dv (nodes (dvr_start u st) ! u) = ?D" .
  have dk: "distinct (map ?kf ?ls)"
  proof -
    have "distinct (map destination ?ls)" by (rule runnable_distinct_links [OF u])
    then have "distinct ?ls" "inj_on destination (set ?ls)" by (simp_all add: distinct_map)
    moreover have "inj_on ?kf (set ?ls)"
    proof (rule inj_onI)
      fix a b assume ab: "a \<in> set ?ls" "b \<in> set ?ls" "names ! destination a = names ! destination b"
      from inj_names [OF dn wl(1) [OF ab(1)] wl(1) [OF ab(2)] ab(3)]
      have "destination a = destination b" .
      with \<open>inj_on destination (set ?ls)\<close> ab show "a = b" by (auto dest: inj_onD)
    qed
    ultimately show ?thesis by (simp add: distinct_map)
  qed
  have self_other: "names ! u \<notin> ?kf ` set ?ls"
  proof
    assume "names ! u \<in> ?kf ` set ?ls"
    then obtain l where l: "l \<in> set ?ls" "names ! u = names ! destination l" by auto
    from inj_names [OF dn u wl(1) [OF l(1)] l(2)] wl(2) [OF l(1)] show False by simp
  qed
  have 1: "distinct (map fst ?D)" by (rule foldl_update_distinct) simp
  have 2: "map_of ?D (names ! u) = Some (0, None)"
    using foldl_update_other [OF self_other, of ?vf "[(names ! u, (0, None))]"] by simp
  have 3: "\<forall>(k, (c, h)) \<in> set ?D.
         \<exists>v < length names. k = names ! v \<and> (\<exists>p. is_path ?rs0 u p v \<and> path_cost p = c)"
  proof (clarify)
    fix k c h assume "(k, (c, h)) \<in> set ?D"
    from foldl_update_set [OF this]
    consider "(k, (c, h)) = (names ! u, (0, None))"
      | l where "l \<in> set ?ls" "(k, (c, h)) = (?kf l, ?vf l)" by auto
    then show "\<exists>v < length names. k = names ! v \<and> (\<exists>p. is_path ?rs0 u p v \<and> path_cost p = c)"
    proof cases
      case 1
      have "is_path ?rs0 u [] u" using u by (simp add: Network_init_nodes_props(1))
      with 1 u show ?thesis by (intro exI [of _ u]) (auto intro: exI [of _ "[]"])
    next
      case (2 l)
      have "is_path ?rs0 u [l] (destination l)"
        using u 2(1) wl(1) [OF 2(1)] by (simp add: Network_init_nodes_props(1))
      with 2 wl(1) [OF 2(1)] show ?thesis
        by (intro exI [of _ "destination l"]) (auto intro: exI [of _ "[l]"])
    qed
  qed
  have 4: "\<forall>l \<in> set ?ls. \<exists>c h. map_of ?D (names ! destination l) = Some (c, h) \<and> c \<le> cost l"
  proof
    fix l assume "l \<in> set ?ls"
    from foldl_update_key [OF dk this, of ?vf "[(names ! u, (0, None))]"]
    show "\<exists>c h. map_of ?D (names ! destination l) = Some (c, h) \<and> c \<le> cost l" by simp
  qed
  from 1 2 3 4 show ?thesis unfolding table_ok_def D by blast
qed

lemma inv_init:
  assumes "runnable names costs"
  shows "net_inv names costs (projr (Network_init names costs))"
  by (simp add: net_inv_def static_ok_def tables_ok_def threads_ok_def links_covered_def
      Network_init_def Network_init_nodes_props)

lemma inv_start:
  assumes wf: "runnable names costs" and inv: "net_inv names costs st"
    and s: "started st < length names"
  shows "net_inv names costs ((dvr_start (started st) st)\<lparr>started := Suc (started st)\<rparr>)"
proof -
  let ?u = "started st"
  let ?st' = "(dvr_start ?u st)\<lparr>started := Suc ?u\<rparr>"
  let ?rs0 = "Network_init_nodes names costs"
  from inv have so: "static_ok names costs st" and to: "tables_ok names costs st"
    and tho: "threads_ok names costs st" and lc: "links_covered names costs st"
    by (simp_all add: net_inv_def)
  from so s have len: "length (nodes st) = length names"
    and nm: "\<And>j. j < length names \<Longrightarrow> name (nodes st ! j) = names ! j"
    and lk: "\<And>j. j < length names \<Longrightarrow> links (nodes st ! j) = links (?rs0 ! j)"
    by (simp_all add: static_ok_def)
  from s len have ul: "?u < length (nodes st)" by simp
  have other: "\<And>j. j \<noteq> ?u \<Longrightarrow> nodes ?st' ! j = nodes st ! j"
    by (simp add: dvr_start_nodes_other)
  have self: "name (nodes ?st' ! ?u) = names ! ?u" "links (nodes ?st' ! ?u) = links (?rs0 ! ?u)"
    using dvr_start_nodes_self(1,2) [OF ul] nm [OF s] lk [OF s] by simp_all
  have len': "length (nodes ?st') = length names"
    using dvr_start_nodes_self(3) [OF ul] len by simp
  have thr: "threads ?st' = threads st @ map (\<lambda>l. (l, (names ! ?u, ?u))) (links (?rs0 ! ?u))"
    using threads_dvr_start [OF ul] nm [OF s] lk [OF s] by simp
  have st: "started ?st' = Suc ?u" by simp
  from to s have empty: "dv (nodes st ! ?u) = []" by (simp add: tables_ok_def)
  have 1: "static_ok names costs ?st'"
    unfolding static_ok_def
  proof (intro conjI allI impI)
    show "length (nodes ?st') = length names" by (rule len')
    show "started ?st' \<le> length names" using s by simp
  next
    fix j assume j: "j < length names"
    show "name (nodes ?st' ! j) = names ! j"
      using self(1) other [of j] nm [OF j] by (cases "j = ?u") simp_all
    show "links (nodes ?st' ! j) = links (?rs0 ! j)"
      using self(2) other [of j] lk [OF j] by (cases "j = ?u") simp_all
  qed
  have 2: "tables_ok names costs ?st'"
    unfolding tables_ok_def
  proof (intro allI impI)
    fix j assume j: "j < length names"
    consider "j = ?u" | "j < ?u" | "?u < j" by linarith
    then show "if j < started ?st' then table_ok names costs j (dv (nodes ?st' ! j))
               else dv (nodes ?st' ! j) = []"
    proof cases
      case 1
      with start_table_ok [OF wf so s empty] show ?thesis by simp
    next
      case 2
      with to j have "table_ok names costs j (dv (nodes st ! j))" by (simp add: tables_ok_def)
      with 2 other [of j] show ?thesis by simp
    next
      case 3
      with to j have "dv (nodes st ! j) = []" by (simp add: tables_ok_def)
      with 3 other [of j] show ?thesis by simp
    qed
  qed
  have 3: "threads_ok names costs ?st'"
    using tho unfolding threads_ok_def thr st by (auto simp: less_Suc_eq)
  have 4: "links_covered names costs ?st'"
    unfolding links_covered_def
  proof (intro allI impI ballI)
    fix j l assume j: "j < started ?st'" and l: "l \<in> set (links (?rs0 ! j))"
    show "covered names ?st' j l"
    proof (cases "j = ?u")
      case True
      with l show ?thesis unfolding covered_def thr by simp
    next
      case False
      with j have ju: "j < ?u" by simp
      with lc l have "covered names st j l" by (simp add: links_covered_def)
      then show ?thesis
        unfolding covered_def thr st
      proof (elim disjE conjE)
        assume "(l, names ! j, j) \<in> set (threads st)"
        then show "(l, names ! j, j) \<in> set (threads st @ map (\<lambda>l. (l, names ! ?u, ?u)) (links (?rs0 ! ?u)))
            \<or> (destination l < Suc ?u \<and>
                (\<forall>(k, (c, h)) \<in> set (dv (nodes ?st' ! j)).
                   \<exists>c' h'. map_of (dv (nodes ?st' ! destination l)) k = Some (c', h') \<and> c' \<le> cost l + c))"
          by simp
      next
        assume d: "destination l < ?u"
          and p: "\<forall>(k, (c, h)) \<in> set (dv (nodes st ! j)).
                   \<exists>c' h'. map_of (dv (nodes st ! destination l)) k = Some (c', h') \<and> c' \<le> cost l + c"
        from d ju have "nodes ?st' ! j = nodes st ! j" "nodes ?st' ! destination l = nodes st ! destination l"
          using other by simp_all
        with d p show "(l, names ! j, j) \<in> set (threads st @ map (\<lambda>l. (l, names ! ?u, ?u)) (links (?rs0 ! ?u)))
            \<or> (destination l < Suc ?u \<and>
                (\<forall>(k, (c, h)) \<in> set (dv (nodes ?st' ! j)).
                   \<exists>c' h'. map_of (dv (nodes ?st' ! destination l)) k = Some (c', h') \<and> c' \<le> cost l + c))"
          by simp
      qed
    qed
  qed
  from 1 2 3 4 show ?thesis by (simp add: net_inv_def)
qed

lemma table_ok_sound:
  assumes "table_ok names costs u d" and "(k, (c, h)) \<in> set d"
  obtains v p where "v < length names" "k = names ! v"
    "is_path (Network_init_nodes names costs) u p v" "path_cost p = c"
  using assms unfolding table_ok_def by blast

lemma table_ok_nonneg:
  assumes wf: "runnable names costs" and t: "table_ok names costs u d"
  shows "\<forall>(k, (c, h)) \<in> set d. 0 \<le> c" and "nonneg_dv d"
proof -
  show a: "\<forall>(k, (c, h)) \<in> set d. 0 \<le> c"
  proof clarify
    fix k c h assume "(k, (c, h)) \<in> set d"
    from table_ok_sound [OF t this] path_cost_nonneg [OF wf] show "0 \<le> c" by metis
  qed
  show "nonneg_dv d"
    unfolding nonneg_dv_def using a by (auto dest!: map_of_SomeD)
qed

lemma table_ok_receive:
  assumes wf: "runnable names costs"
    and ti: "table_ok names costs i di" and tj: "table_ok names costs j dj"
    and i: "i < length names" and j: "j < length names"
    and r: "receive_dv di (names ! j, dj) = Inr (d', ch)"
  shows "table_ok names costs i d'"
proof -
  let ?rs0 = "Network_init_nodes names costs"
  from wf have dn: "distinct names" by (simp add: runnable_def well_formed_def)
  from r obtain lc h0 where s: "map_of di (names ! j) = Some (lc, h0)"
    and f: "foldl (relax (names ! j) lc) (di, False) dj = (d', ch)"
    by (auto simp: receive_dv_def split: option.splits)
  from s have "(names ! j, (lc, h0)) \<in> set di" by (rule map_of_SomeD)
  from table_ok_sound [OF ti this] obtain v p1 where
    v: "v < length names" "names ! j = names ! v" and p1: "is_path ?rs0 i p1 v" "path_cost p1 = lc"
    by blast
  from inj_names [OF dn j v(1) v(2)] p1 have p1: "is_path ?rs0 i p1 j" "path_cost p1 = lc" by simp_all
  from ti have di: "distinct (map fst di)" by (simp add: table_ok_def)
  have 1: "distinct (map fst d')"
    using foldl_relax_distinct [OF di, of "names ! j" lc False dj] f by simp
  have 2: "map_of d' (names ! i) = Some (0, None)"
  proof -
    from ti have "map_of di (names ! i) = Some (0, None)" by (simp add: table_ok_def)
    from receive_dv_self [OF r this table_ok_nonneg(2) [OF wf ti] table_ok_nonneg(1) [OF wf tj]]
    show ?thesis by simp
  qed
  have 3: "\<forall>(k, (c, h)) \<in> set d'.
         \<exists>v < length names. k = names ! v \<and> (\<exists>p. is_path ?rs0 i p v \<and> path_cost p = c)"
  proof clarify
    fix k c h assume "(k, (c, h)) \<in> set d'"
    with f have "(k, (c, h)) \<in> set (fst (foldl (relax (names ! j) lc) (di, False) dj))" by simp
    from foldl_relax_set [OF this]
    consider "(k, (c, h)) \<in> set di"
      | e where "e \<in> set dj" "(k, (c, h)) = (fst e, (lc + fst (snd e), Some (names ! j)))" by blast
    then show "\<exists>v < length names. k = names ! v \<and> (\<exists>p. is_path ?rs0 i p v \<and> path_cost p = c)"
    proof cases
      case 1
      from table_ok_sound [OF ti this] show ?thesis by blast
    next
      case (2 e)
      obtain k1 c1 h1 where e: "e = (k1, (c1, h1))" by (cases e) auto
      with 2 have m: "(k1, (c1, h1)) \<in> set dj" and kc: "k = k1" "c = lc + c1" by simp_all
      from table_ok_sound [OF tj m] obtain w p2 where
        w: "w < length names" "k1 = names ! w" "is_path ?rs0 j p2 w" "path_cost p2 = c1" by blast
      from is_path_append [OF p1(1) w(3)] have "is_path ?rs0 i (p1 @ p2) w" .
      moreover have "path_cost (p1 @ p2) = c" using p1(2) w(4) kc by simp
      ultimately show ?thesis using w(1,2) kc by blast
    qed
  qed
  have 4: "\<forall>l \<in> set (links (?rs0 ! i)). \<exists>c h. map_of d' (names ! destination l) = Some (c, h) \<and> c \<le> cost l"
  proof
    fix l assume "l \<in> set (links (?rs0 ! i))"
    with ti obtain c h where c: "map_of di (names ! destination l) = Some (c, h)" "c \<le> cost l"
      unfolding table_ok_def by blast
    from foldl_relax_mono [OF c(1), of "names ! j" lc False dj] f c(2)
    show "\<exists>c h. map_of d' (names ! destination l) = Some (c, h) \<and> c \<le> cost l"
      by fastforce
  qed
  from 1 2 3 4 show ?thesis unfolding table_ok_def by blast
qed

lemma wf_progress_rel: "wf progress_rel"
  unfolding progress_rel_def by (intro wf_inv_image wf_lex_prod wf_less_than)

lemma receive_result:
  assumes "receive_dv (dv (nodes st ! i)) (s, dv (nodes st ! ref)) = Inr (d', ch)"
  shows "\<exists>st'. receive i (s, ref) st = Inr st' \<and>
           nodes st' = (nodes st)[i := (nodes st ! i)\<lparr>dv := d'\<rparr>] \<and>
           threads st' = threads st @
              (if ch then map (\<lambda>l. (l, (name ((nodes st)[i := (nodes st ! i)\<lparr>dv := d'\<rparr>] ! i), i)))
                              (links ((nodes st)[i := (nodes st ! i)\<lparr>dv := d'\<rparr>] ! i)) else []) \<and>
           started st' = started st"
  using assms by (simp add: receive_def Let_def)

lemma sum_list_map_update:
  fixes f :: "'a \<Rightarrow> 'b::comm_monoid_add"
  shows "i < length xs \<Longrightarrow> sum_list (map f (xs[i := y])) + f (xs ! i) = sum_list (map f xs) + f y"
proof (induction xs arbitrary: i)
  case Nil
  then show ?case by simp
next
  case (Cons x xs)
  show ?case
  proof (cases i)
    case 0
    then show ?thesis by (simp add: ac_simps)
  next
    case (Suc i')
    with Cons.prems have "i' < length xs" by simp
    from Cons.IH [OF this] Suc show ?thesis by (simp add: ac_simps)
  qed
qed

lemma table_ok_length:
  assumes wf: "runnable names costs" and t: "table_ok names costs u d"
  shows "length d \<le> length names"
proof -
  from t have d: "distinct (map fst d)" by (simp add: table_ok_def)
  have "fst ` set d \<subseteq> set names"
  proof
    fix k assume "k \<in> fst ` set d"
    then obtain c h where "(k, (c, h)) \<in> set d" by force
    from table_ok_sound [OF t this] show "k \<in> set names" by (metis nth_mem)
  qed
  then have "card (fst ` set d) \<le> card (set names)" by (intro card_mono) simp_all
  moreover have "card (fst ` set d) = length d"
    using d by (metis distinct_card length_map set_map)
  moreover have "card (set names) \<le> length names" by (rule card_length)
  ultimately show ?thesis by simp
qed

lemma cost_sum_nonneg:
  "\<forall>(k, (c, h)) \<in> set d. 0 \<le> c \<Longrightarrow> 0 \<le> cost_sum d"
  unfolding cost_sum_def by (rule sum_list_nonneg) auto

lemma tables_ok_cost_sum:
  assumes wf: "runnable names costs" and so: "static_ok names costs st"
    and t: "tables_ok names costs st"
  shows "0 \<le> sum_list (map (\<lambda>r. cost_sum (dv r)) (nodes st))"
proof (rule sum_list_nonneg)
  fix x assume "x \<in> set (map (\<lambda>r. cost_sum (dv r)) (nodes st))"
  then obtain u where u: "u < length (nodes st)" "x = cost_sum (dv (nodes st ! u))"
    by (auto simp: in_set_conv_nth)
  from so u have un: "u < length names" by (simp add: static_ok_def)
  show "0 \<le> x"
  proof (cases "u < started st")
    case True
    with t un have "table_ok names costs u (dv (nodes st ! u))" by (simp add: tables_ok_def)
    from cost_sum_nonneg [OF table_ok_nonneg(1) [OF wf this]] u show ?thesis by simp
  next
    case False
    with t un have "dv (nodes st ! u) = []" by (simp add: tables_ok_def)
    with u show ?thesis by (simp add: cost_sum_def)
  qed
qed

lemma set_nth_remove:
  "k < length xs \<Longrightarrow> set xs = insert (xs ! k) (set (take k xs @ drop (Suc k) xs))"
proof (induction xs arbitrary: k)
  case Nil
  then show ?case by simp
next
  case (Cons x xs)
  show ?case
  proof (cases k)
    case 0
    then show ?thesis by simp
  next
    case (Suc k')
    with Cons.prems have "k' < length xs" by simp
    from Cons.IH [OF this] Suc show ?thesis by auto
  qed
qed

lemma set_remove_nth:
  assumes "k < length xs" and "y \<in> set xs" and "y \<noteq> xs ! k"
  shows "y \<in> set (take k xs @ drop (Suc k) xs)"
  using set_nth_remove [OF assms(1)] assms(2,3) by blast

lemma set_remove_nth_subset: "set (take k xs @ drop (Suc k) xs) \<subseteq> set xs"
  using set_take_subset [of k xs] set_drop_subset [of "Suc k" xs] by auto

lemma deliver_facts:
  assumes wf: "runnable names costs" and inv: "net_inv names costs st"
    and d: "deliver k st = Some (e, st')"
  obtains l j d' ch where
    "k < length (threads st)" "threads st ! k = (l, (names ! j, j))"
    "j < started st" "l \<in> set (links (Network_init_nodes names costs ! j))"
    "destination l < started st" "destination l \<noteq> j"
    "receive_dv (dv (nodes st ! destination l)) (names ! j, dv (nodes st ! j)) = Inr (d', ch)"
    "nodes st' = (nodes st)[destination l := (nodes st ! destination l)\<lparr>dv := d'\<rparr>]"
    "threads st' = take k (threads st) @ drop (Suc k) (threads st) @
       (if ch then map (\<lambda>l'. (l', (names ! destination l, destination l)))
                       (links (Network_init_nodes names costs ! destination l)) else [])"
    "started st' = started st"
    "\<exists>lc h. map_of (dv (nodes st ! destination l)) (names ! j) = Some (lc, h) \<and> lc \<le> cost l"
proof -
  let ?rs0 = "Network_init_nodes names costs"
  from inv have so: "static_ok names costs st" and to: "tables_ok names costs st"
    and tho: "threads_ok names costs st"
    by (simp_all add: net_inv_def)
  from so have len: "length (nodes st) = length names" and sl: "started st \<le> length names"
    and nm: "\<And>j. j < length names \<Longrightarrow> name (nodes st ! j) = names ! j"
    and lk: "\<And>j. j < length names \<Longrightarrow> links (nodes st ! j) = links (?rs0 ! j)"
    by (simp_all add: static_ok_def)
  from d have k: "k < length (threads st)" by (simp add: deliver_def split: if_splits)
  obtain l s j where t: "threads st ! k = (l, (s, j))" by (cases "threads st ! k") auto
  from k t have "(l, (s, j)) \<in> set (threads st)" by (metis nth_mem)
  with tho have j: "j < started st" and s: "s = names ! j" and l: "l \<in> set (links (?rs0 ! j))"
    by (auto simp: threads_ok_def)
  from j sl have jn: "j < length names" by simp
  note wl = runnable_links [OF wf jn l]
  let ?i = "destination l"
  let ?st0 = "st\<lparr>threads := take k (threads st) @ drop (Suc k) (threads st)\<rparr>"
  have du: "deliver k st =
      (if \<not> initialized (nodes st ! ?i) then None
       else (case receive ?i (s, j) ?st0 of Inl e' \<Rightarrow> Some (Some e', ?st0) | Inr st'' \<Rightarrow> Some (None, st'')))"
    using k t wl(5) by (simp add: deliver_def Let_def)
  from d have ini: "initialized (nodes st ! ?i)"
    unfolding du by (simp split: if_splits)
  with d have r: "(case receive ?i (s, j) ?st0 of Inl e' \<Rightarrow> Some (Some e', ?st0) | Inr st'' \<Rightarrow> Some (None, st''))
              = Some (e, st')"
    unfolding du by simp
  have i: "?i < started st"
  proof (rule ccontr)
    assume "\<not> ?i < started st"
    with to wl(1) have "dv (nodes st ! ?i) = []" by (simp add: tables_ok_def)
    with ini show False by (simp add: initialized_def)
  qed
  with to wl(1) have ti: "table_ok names costs ?i (dv (nodes st ! ?i))" by (simp add: tables_ok_def)
  with wl(4) obtain lc h where lc: "map_of (dv (nodes st ! ?i)) (names ! j) = Some (lc, h)" "lc \<le> cost l"
    unfolding table_ok_def by force
  obtain d' ch where f: "foldl (relax (names ! j) lc) (dv (nodes st ! ?i), False) (dv (nodes st ! j)) = (d', ch)"
    by (cases "foldl (relax (names ! j) lc) (dv (nodes st ! ?i), False) (dv (nodes st ! j))")
  with lc have rd: "receive_dv (dv (nodes st ! ?i)) (names ! j, dv (nodes st ! j)) = Inr (d', ch)"
    by (simp add: receive_dv_def)
  then have "receive_dv (dv (nodes ?st0 ! ?i)) (names ! j, dv (nodes ?st0 ! j)) = Inr (d', ch)" by simp
  from receive_result [OF this] obtain st'' where
    st'': "receive ?i (names ! j, j) ?st0 = Inr st''"
      "nodes st'' = (nodes st)[?i := (nodes st ! ?i)\<lparr>dv := d'\<rparr>]"
      "threads st'' = (take k (threads st) @ drop (Suc k) (threads st)) @
              (if ch then map (\<lambda>l. (l, (name ((nodes st)[?i := (nodes st ! ?i)\<lparr>dv := d'\<rparr>] ! ?i), ?i)))
                              (links ((nodes st)[?i := (nodes st ! ?i)\<lparr>dv := d'\<rparr>] ! ?i)) else [])"
      "started st'' = started st"
    by auto
  from r st''(1) s have eq: "st' = st''" "e = None" by simp_all
  have il: "?i < length (nodes st)" using wl(1) len by simp
  have thr: "threads st' = take k (threads st) @ drop (Suc k) (threads st) @
       (if ch then map (\<lambda>l'. (l', (names ! ?i, ?i))) (links (?rs0 ! ?i)) else [])"
    using st''(3) il nm [OF wl(1)] lk [OF wl(1)] by (simp add: eq)
  show ?thesis
    using that [OF k t [unfolded s] j l i wl(2) rd st''(2) [folded eq(1)] thr st''(4) [folded eq(1)]] lc
    by blast
qed

lemma inv_deliver:
  assumes wf: "runnable names costs" and inv: "net_inv names costs st"
    and d: "deliver k st = Some (e, st')"
  shows "net_inv names costs st'"
proof -
  let ?rs0 = "Network_init_nodes names costs"
  from inv have so: "static_ok names costs st" and to: "tables_ok names costs st"
    and tho: "threads_ok names costs st" and lc: "links_covered names costs st"
    by (simp_all add: net_inv_def)
  from so have len: "length (nodes st) = length names" and sl: "started st \<le> length names"
    and nm: "\<And>j. j < length names \<Longrightarrow> name (nodes st ! j) = names ! j"
    and lk: "\<And>j. j < length names \<Longrightarrow> links (nodes st ! j) = links (?rs0 ! j)"
    by (simp_all add: static_ok_def)
  from deliver_facts [OF wf inv d] obtain l j d' ch where
    k: "k < length (threads st)" and t: "threads st ! k = (l, (names ! j, j))"
    and j: "j < started st" and l: "l \<in> set (links (?rs0 ! j))"
    and i: "destination l < started st" and ij: "destination l \<noteq> j"
    and rd: "receive_dv (dv (nodes st ! destination l)) (names ! j, dv (nodes st ! j)) = Inr (d', ch)"
    and nodes': "nodes st' = (nodes st)[destination l := (nodes st ! destination l)\<lparr>dv := d'\<rparr>]"
    and thr: "threads st' = take k (threads st) @ drop (Suc k) (threads st) @
       (if ch then map (\<lambda>l'. (l', (names ! destination l, destination l)))
                       (links (?rs0 ! destination l)) else [])"
    and st: "started st' = started st"
    and lcl: "\<exists>lc h. map_of (dv (nodes st ! destination l)) (names ! j) = Some (lc, h) \<and> lc \<le> cost l"
    by blast
  let ?i = "destination l"
  from i j sl have il: "?i < length names" and jl: "j < length names" by simp_all
  from il len have il': "?i < length (nodes st)" by simp
  have other: "\<And>u. u \<noteq> ?i \<Longrightarrow> nodes st' ! u = nodes st ! u" by (simp add: nodes')
  have self: "nodes st' ! ?i = (nodes st ! ?i)\<lparr>dv := d'\<rparr>" using il' by (simp add: nodes')
  have dvs: "\<And>u. dv (nodes st' ! u) = (if u = ?i then d' else dv (nodes st ! u))"
    using other self by simp
  from to i il have ti: "table_ok names costs ?i (dv (nodes st ! ?i))" by (simp add: tables_ok_def)
  from to j jl have tj: "table_ok names costs j (dv (nodes st ! j))" by (simp add: tables_ok_def)
  have ti': "table_ok names costs ?i d'" by (rule table_ok_receive [OF wf ti tj il jl rd])
  have 1: "static_ok names costs st'"
    unfolding static_ok_def
  proof (intro conjI allI impI)
    show "length (nodes st') = length names" by (simp add: nodes' len)
    show "started st' \<le> length names" by (simp add: st sl)
  next
    fix u assume u: "u < length names"
    show "name (nodes st' ! u) = names ! u"
      using nm [OF u] other [of u] self by (cases "u = ?i") simp_all
    show "links (nodes st' ! u) = links (?rs0 ! u)"
      using lk [OF u] other [of u] self by (cases "u = ?i") simp_all
  qed
  have 2: "tables_ok names costs st'"
    unfolding tables_ok_def st dvs
  proof (intro allI impI)
    fix u assume u: "u < length names"
    from to u have "if u < started st then table_ok names costs u (dv (nodes st ! u))
               else dv (nodes st ! u) = []" by (simp add: tables_ok_def)
    with ti' i show "if u < started st then table_ok names costs u (if u = ?i then d' else dv (nodes st ! u))
               else (if u = ?i then d' else dv (nodes st ! u)) = []"
      by (cases "u = ?i") simp_all
  qed
  have 3: "threads_ok names costs st'"
    unfolding threads_ok_def
  proof clarify
    fix l' s' j' assume "(l', (s', j')) \<in> set (threads st')"
    then consider "(l', (s', j')) \<in> set (take k (threads st) @ drop (Suc k) (threads st))"
      | "ch" "l' \<in> set (links (?rs0 ! ?i))" "s' = names ! ?i" "j' = ?i"
      unfolding thr by (auto split: if_splits)
    then show "j' < started st' \<and> s' = names ! j' \<and> l' \<in> set (links (?rs0 ! j'))"
    proof cases
      case 1
      with set_remove_nth_subset [of k "threads st"] have "(l', (s', j')) \<in> set (threads st)" by blast
      with tho show ?thesis by (auto simp: threads_ok_def st)
    next
      case 2
      with i show ?thesis by (simp add: st)
    qed
  qed
  have mono: "\<And>x c h. map_of (dv (nodes st ! ?i)) x = Some (c, h) \<Longrightarrow>
                  \<exists>c' h'. map_of d' x = Some (c', h') \<and> c' \<le> c"
    by (rule receive_dv_mono [OF rd])
  have unchanged: "\<not> ch \<Longrightarrow> d' = dv (nodes st ! ?i)"
    using receive_dv_changed(1) [OF rd] by simp
  have 4: "links_covered names costs st'"
    unfolding links_covered_def st
  proof (intro allI impI ballI)
    fix j' l' assume j': "j' < started st" and l': "l' \<in> set (links (?rs0 ! j'))"
    from lc j' l' have c: "covered names st j' l'" by (simp add: links_covered_def)
    let ?y = "(l', (names ! j', j'))"
    have pending: "?y \<in> set (threads st) \<Longrightarrow> ?y \<noteq> threads st ! k \<Longrightarrow> ?y \<in> set (threads st')"
      using set_remove_nth [OF k, of ?y] unfolding thr by auto
    show "covered names st' j' l'"
    proof (cases "j' = ?i \<and> ch")
      case True
      with l' show ?thesis unfolding covered_def thr by simp
    next
      case False
      from c show ?thesis unfolding covered_def [of names st]
      proof (elim disjE conjE)
        assume p: "?y \<in> set (threads st)"
        show ?thesis
        proof (cases "?y = threads st ! k")
          case False
          with pending [OF p] show ?thesis unfolding covered_def by simp
        next
          case True
          with t have e: "l' = l" "j' = j" by simp_all
          from tj have dj: "distinct (map fst (dv (nodes st ! j)))" by (simp add: table_ok_def)
          from rd obtain lc0 h0 where lc0: "map_of (dv (nodes st ! ?i)) (names ! j) = Some (lc0, h0)"
            and f: "foldl (relax (names ! j) lc0) (dv (nodes st ! ?i), False) (dv (nodes st ! j)) = (d', ch)"
            by (auto simp: receive_dv_def split: option.splits)
          from lcl lc0 have le: "lc0 \<le> cost l" by simp
          have "\<forall>(x, (c, h)) \<in> set (dv (nodes st ! j)).
                  \<exists>c' h'. map_of d' x = Some (c', h') \<and> c' \<le> cost l + c"
          proof clarify
            fix x c h assume "(x, (c, h)) \<in> set (dv (nodes st ! j))"
            from foldl_relax_covers [OF dj this, of "names ! j" lc0 "dv (nodes st ! ?i)" False] f le
            show "\<exists>c' h'. map_of d' x = Some (c', h') \<and> c' \<le> cost l + c" by fastforce
          qed
          with i ij show ?thesis unfolding covered_def e st dvs by simp
        qed
      next
        assume q: "destination l' < started st"
          and p: "\<forall>(x, (c, h)) \<in> set (dv (nodes st ! j')).
                   \<exists>c' h'. map_of (dv (nodes st ! destination l')) x = Some (c', h') \<and> c' \<le> cost l' + c"
        have a: "dv (nodes st' ! j') = dv (nodes st ! j')"
          using False unchanged unfolding dvs by auto
        have "\<forall>(x, (c, h)) \<in> set (dv (nodes st ! j')).
                   \<exists>c' h'. map_of (dv (nodes st' ! destination l')) x = Some (c', h') \<and> c' \<le> cost l' + c"
        proof clarify
          fix x c h assume "(x, (c, h)) \<in> set (dv (nodes st ! j'))"
          with p obtain c1 h1 where c1: "map_of (dv (nodes st ! destination l')) x = Some (c1, h1)"
            "c1 \<le> cost l' + c" by blast
          show "\<exists>c' h'. map_of (dv (nodes st' ! destination l')) x = Some (c', h') \<and> c' \<le> cost l' + c"
          proof (cases "destination l' = ?i")
            case True
            from mono [OF c1(1) [unfolded True]] c1(2) show ?thesis unfolding dvs True by fastforce
          next
            case False
            with c1 show ?thesis unfolding dvs by simp
          qed
        qed
        with q show ?thesis unfolding covered_def st a by simp
      qed
    qed
  qed
  from 1 2 3 4 show ?thesis by (simp add: net_inv_def)
qed

lemma in_progress_rel:
  "(st', st) \<in> progress_rel \<longleftrightarrow>
     (case progress st' of (a', b', c', d') \<Rightarrow>
      case progress st of (a, b, c, d) \<Rightarrow>
        a' < a \<or> (a' = a \<and> (b' < b \<or> (b' = b \<and> (c' < c \<or> (c' = c \<and> d' < d))))))"
  by (auto simp: progress_rel_def)

lemma start_progress:
  assumes "length (nodes st) = length names" and "started st < length names"
  shows "((dvr_start (started st) st)\<lparr>started := Suc (started st)\<rparr>, st) \<in> progress_rel"
proof -
  let ?st' = "(dvr_start (started st) st)\<lparr>started := Suc (started st)\<rparr>"
  from assms have "started st < length (nodes st)" by simp
  from dvr_start_nodes_self(3) [OF this] assms
  have "length (nodes ?st') - started ?st' < length (nodes st) - started st" by simp
  then have "fst (progress ?st') < fst (progress st)" by (simp add: progress_def)
  then show ?thesis unfolding in_progress_rel by (auto split: prod.splits)
qed

lemma deliver_progress:
  assumes wf: "runnable names costs" and inv: "net_inv names costs st"
    and d: "deliver k st = Some (e, st')"
  shows "(st', st) \<in> progress_rel"
proof -
  let ?rs0 = "Network_init_nodes names costs"
  from inv have so: "static_ok names costs st" and to: "tables_ok names costs st"
    by (simp_all add: net_inv_def)
  from so have len: "length (nodes st) = length names" and sl: "started st \<le> length names"
    by (simp_all add: static_ok_def)
  from inv_deliver [OF wf inv d] have so': "static_ok names costs st'" and to': "tables_ok names costs st'"
    by (simp_all add: net_inv_def)
  from deliver_facts [OF wf inv d] obtain l j d' ch where
    k: "k < length (threads st)" and t: "threads st ! k = (l, (names ! j, j))"
    and j: "j < started st" and l: "l \<in> set (links (?rs0 ! j))"
    and i: "destination l < started st" and ij: "destination l \<noteq> j"
    and rd: "receive_dv (dv (nodes st ! destination l)) (names ! j, dv (nodes st ! j)) = Inr (d', ch)"
    and nodes': "nodes st' = (nodes st)[destination l := (nodes st ! destination l)\<lparr>dv := d'\<rparr>]"
    and thr: "threads st' = take k (threads st) @ drop (Suc k) (threads st) @
       (if ch then map (\<lambda>l'. (l', (names ! destination l, destination l)))
                       (links (?rs0 ! destination l)) else [])"
    and st: "started st' = started st"
    and lcl: "\<exists>lc h. map_of (dv (nodes st ! destination l)) (names ! j) = Some (lc, h) \<and> lc \<le> cost l"
    by blast
  let ?i = "destination l"
  let ?N = "length (nodes st)"
  let ?f2 = "\<lambda>r. ?N - length (dv r)"
  let ?f3 = "\<lambda>r. cost_sum (dv r)"
  let ?r' = "(nodes st ! ?i)\<lparr>dv := d'\<rparr>"
  from i sl len have il: "?i < ?N" "?i < length names" by simp_all
  have len': "length (nodes st') = ?N" by (simp add: nodes')
  have s2: "sum_list (map ?f2 (nodes st')) + (?N - length (dv (nodes st ! ?i))) =
            sum_list (map ?f2 (nodes st)) + (?N - length d')"
    using sum_list_map_update [OF il(1), of ?f2 ?r'] by (simp add: nodes')
  have s3: "sum_list (map ?f3 (nodes st')) + cost_sum (dv (nodes st ! ?i)) =
            sum_list (map ?f3 (nodes st)) + cost_sum d'"
    using sum_list_map_update [OF il(1), of ?f3 ?r'] by (simp add: nodes')
  have p: "progress st' = (?N - started st, sum_list (map ?f2 (nodes st')),
      nat (sum_list (map ?f3 (nodes st'))), length (threads st'))"
    by (simp add: progress_def len' st)
  have p0: "progress st = (?N - started st, sum_list (map ?f2 (nodes st)),
      nat (sum_list (map ?f3 (nodes st))), length (threads st))"
    by (simp add: progress_def)
  show ?thesis
  proof (cases ch)
    case False
    with receive_dv_changed(1) [OF rd] have "d' = dv (nodes st ! ?i)" by simp
    then have "nodes st' = nodes st" by (simp add: nodes')
    moreover from False k have "length (threads st') < length (threads st)"
      by (simp add: thr)
    ultimately show ?thesis unfolding in_progress_rel p p0 by simp
  next
    case True
    from to' il(2) i have "table_ok names costs ?i (dv (nodes st' ! ?i))"
      by (simp add: tables_ok_def st)
    then have "table_ok names costs ?i d'" using il(1) by (simp add: nodes')
    from table_ok_length [OF wf this] len have dl: "length d' \<le> ?N" by simp
    from receive_dv_changed(2) [OF rd True]
    consider "length (dv (nodes st ! ?i)) < length d'"
      | "length d' = length (dv (nodes st ! ?i))" "cost_sum d' < cost_sum (dv (nodes st ! ?i))"
      by blast
    then show ?thesis
    proof cases
      case 1
      with dl s2 have "sum_list (map ?f2 (nodes st')) < sum_list (map ?f2 (nodes st))" by linarith
      then show ?thesis unfolding in_progress_rel p p0 by simp
    next
      case 2
      with s2 have e: "sum_list (map ?f2 (nodes st')) = sum_list (map ?f2 (nodes st))" by simp
      from 2 s3 have "sum_list (map ?f3 (nodes st')) < sum_list (map ?f3 (nodes st))" by linarith
      moreover have "0 \<le> sum_list (map ?f3 (nodes st'))"
        by (rule tables_ok_cost_sum [OF wf so' to'])
      ultimately have "nat (sum_list (map ?f3 (nodes st'))) < nat (sum_list (map ?f3 (nodes st)))"
        by linarith
      with e show ?thesis unfolding in_progress_rel p p0 by simp
    qed
  qed
qed

lemma step_inv:
  assumes wf: "runnable names costs" and inv: "net_inv names costs st"
    and s: "step ev st = Some st'"
  shows "net_inv names costs st'" and "(st', st) \<in> progress_rel"
proof -
  from inv have len: "length (nodes st) = length names" by (simp add: net_inv_def static_ok_def)
  show "net_inv names costs st'"
  proof (cases ev)
    case Start
    with s len have "started st < length names"
      and "st' = (dvr_start (started st) st)\<lparr>started := Suc (started st)\<rparr>"
      by (simp_all add: step_def Network_dvr_start_step_def split: if_splits)
    with inv_start [OF wf inv] show ?thesis by simp
  next
    case (Deliver k)
    with s obtain e where "deliver k st = Some (e, st')" by (auto simp: step_def)
    from inv_deliver [OF wf inv this] show ?thesis .
  qed
  show "(st', st) \<in> progress_rel"
  proof (cases ev)
    case Start
    with s len have "started st < length names"
      and "st' = (dvr_start (started st) st)\<lparr>started := Suc (started st)\<rparr>"
      by (simp_all add: step_def Network_dvr_start_step_def split: if_splits)
    with start_progress [OF len] show ?thesis by simp
  next
    case (Deliver k)
    with s obtain e where "deliver k st = Some (e, st')" by (auto simp: step_def)
    from deliver_progress [OF wf inv this] show ?thesis .
  qed
qed

lemma run_inv:
  assumes wf: "runnable names costs"
  shows "net_inv names costs st \<Longrightarrow> run evs st = Some st' \<Longrightarrow> net_inv names costs st'"
proof (induction evs arbitrary: st)
  case Nil
  then show ?case by simp
next
  case (Cons ev evs)
  from Cons.prems(2) obtain st1 where s: "step ev st = Some st1" and r: "run evs st1 = Some st'"
    by (auto split: option.splits)
  from Cons.IH [OF step_inv(1) [OF wf Cons.prems(1) s] r] show ?case .
qed

lemma reachable_inv:
  assumes "runnable names costs" and "reachable names costs st"
  shows "net_inv names costs st"
  using assms run_inv [OF assms(1) inv_init [OF assms(1)]] by (auto simp: reachable_def)

lemma run_append: "run (evs @ evs') st = (case run evs st of None \<Rightarrow> None | Some st1 \<Rightarrow> run evs' st1)"
  by (induction evs arbitrary: st) (auto split: option.splits)

lemma reachable_step:
  assumes "reachable names costs st" and "step ev st = Some st'"
  shows "reachable names costs st'"
proof -
  from assms(1) obtain evs where "run evs (projr (Network_init names costs)) = Some st"
    by (auto simp: reachable_def)
  with assms(2) have "run (evs @ [ev]) (projr (Network_init names costs)) = Some st'"
    by (simp add: run_append)
  then show ?thesis unfolding reachable_def by blast
qed

lemma quiescent_bound:
  assumes wf: "runnable names costs" and inv: "net_inv names costs st" and q: "quiescent st"
  shows "is_path (Network_init_nodes names costs) u p v \<Longrightarrow>
         \<exists>c h. map_of (dv (nodes st ! u)) (names ! v) = Some (c, h) \<and> c \<le> path_cost p"
proof (induction p arbitrary: u)
  case Nil
  let ?rs0 = "Network_init_nodes names costs"
  from inv have so: "static_ok names costs st" and to: "tables_ok names costs st"
    by (simp_all add: net_inv_def)
  from so q have all: "started st = length names" by (simp add: static_ok_def quiescent_def)
  from Nil have uv: "u = v" "u < length names" by (simp_all add: Network_init_nodes_props(1))
  with to all have "table_ok names costs u (dv (nodes st ! u))" by (simp add: tables_ok_def)
  then have "map_of (dv (nodes st ! u)) (names ! u) = Some (0, None)" by (simp add: table_ok_def)
  with uv show ?case by simp
next
  case (Cons l p)
  let ?rs0 = "Network_init_nodes names costs"
  from inv have so: "static_ok names costs st" and lc: "links_covered names costs st"
    by (simp_all add: net_inv_def)
  from so q have all: "started st = length names" and thr: "threads st = []"
    by (simp_all add: static_ok_def quiescent_def)
  from Cons.prems have u: "u < length names" and l: "l \<in> set (links (?rs0 ! u))"
    and p: "is_path ?rs0 (destination l) p v"
    by (simp_all add: Network_init_nodes_props(1))
  note wl = runnable_links [OF wf u l]
  let ?w = "destination l"
  let ?reverse = "\<lparr>cost = cost l, destination = u\<rparr>"
  from Cons.IH [OF p] obtain c1 h1 where
    c1: "map_of (dv (nodes st ! ?w)) (names ! v) = Some (c1, h1)" "c1 \<le> path_cost p" by blast
  from c1(1) have m: "(names ! v, (c1, h1)) \<in> set (dv (nodes st ! ?w))" by (rule map_of_SomeD)
  from lc wl(1,4) all have "covered names st ?w ?reverse" by (simp add: links_covered_def)
  with thr have "\<forall>(k, (c, h)) \<in> set (dv (nodes st ! ?w)).
       \<exists>c' h'. map_of (dv (nodes st ! u)) k = Some (c', h') \<and> c' \<le> cost l + c"
    by (simp add: covered_def)
  with m obtain c' h' where "map_of (dv (nodes st ! u)) (names ! v) = Some (c', h')" "c' \<le> cost l + c1"
    by fastforce
  with c1(2) show ?case by auto
qed

lemma quiescent_correct:
  assumes wf: "runnable names costs" and inv: "net_inv names costs st" and q: "quiescent st"
  shows "tables_correct names costs st"
  unfolding tables_correct_def
proof (intro allI impI)
  fix u v assume u: "u < length names" and v: "v < length names"
  let ?rs0 = "Network_init_nodes names costs"
  from wf have dn: "distinct names" by (simp add: runnable_def well_formed_def)
  from inv have so: "static_ok names costs st" and to: "tables_ok names costs st"
    by (simp_all add: net_inv_def)
  from so q have all: "started st = length names" by (simp add: static_ok_def quiescent_def)
  with to u have tu: "table_ok names costs u (dv (nodes st ! u))" by (simp add: tables_ok_def)
  note b = quiescent_bound [OF wf inv q]
  show "case map_of (dv (nodes st ! u)) (names ! v) of
          None \<Rightarrow> \<not> (\<exists>p. is_path ?rs0 u p v)
        | Some (c, h) \<Rightarrow> shortest_cost ?rs0 u v c"
  proof (cases "map_of (dv (nodes st ! u)) (names ! v)")
    case None
    with b [of u _ v] show ?thesis by auto
  next
    case (Some e)
    obtain c h where e: "e = (c, h)" by (cases e)
    from Some e have "(names ! v, (c, h)) \<in> set (dv (nodes st ! u))" by (auto dest: map_of_SomeD)
    from table_ok_sound [OF tu this] obtain v' p where
      v': "v' < length names" "names ! v = names ! v'" "is_path ?rs0 u p v'" "path_cost p = c" by blast
    from inj_names [OF dn v v'(1) v'(2)] v' have p: "is_path ?rs0 u p v" "path_cost p = c" by simp_all
    have "\<forall>q. is_path ?rs0 u q v \<longrightarrow> c \<le> path_cost q"
    proof (intro allI impI)
      fix q assume "is_path ?rs0 u q v"
      from b [OF this] Some e show "c \<le> path_cost q" by simp
    qed
    with p Some e show ?thesis by (auto simp: shortest_cost_def)
  qed
qed

lemma quiescent_no_step: "quiescent st \<Longrightarrow> step ev st = None"
  by (cases ev) (simp_all add: quiescent_def step_def Network_dvr_start_step_def deliver_def)

lemma no_step_quiescent:
  assumes wf: "runnable names costs" and inv: "net_inv names costs st"
    and n: "\<forall>ev. step ev st = None"
  shows "quiescent st"
proof -
  let ?rs0 = "Network_init_nodes names costs"
  from inv have so: "static_ok names costs st" and to: "tables_ok names costs st"
    and tho: "threads_ok names costs st"
    by (simp_all add: net_inv_def)
  from so have len: "length (nodes st) = length names" and sl: "started st \<le> length names"
    and nm: "\<And>j. j < length names \<Longrightarrow> name (nodes st ! j) = names ! j"
    by (simp_all add: static_ok_def)
  from n have "step Start st = None" by blast
  with sl len have all: "started st = length (nodes st)"
    by (simp add: step_def Network_dvr_start_step_def split: if_splits)
  have "threads st = []"
  proof (rule ccontr)
    assume ne: "threads st \<noteq> []"
    then have k: "0 < length (threads st)" by simp
    obtain l s j where t: "threads st ! 0 = (l, (s, j))" by (cases "threads st ! 0") auto
    from k t have "(l, (s, j)) \<in> set (threads st)" by (metis nth_mem)
    with tho have j: "j < started st" and l: "l \<in> set (links (?rs0 ! j))"
      by (auto simp: threads_ok_def)
    from j all len have jn: "j < length names" by simp
    note wl = runnable_links [OF wf jn l]
    from to wl(1) all len have "table_ok names costs (destination l) (dv (nodes st ! destination l))"
      by (simp add: tables_ok_def)
    then have "map_of (dv (nodes st ! destination l)) (names ! destination l) = Some (0, None)"
      by (simp add: table_ok_def)
    then have "names ! destination l \<in> fst ` set (dv (nodes st ! destination l))"
      by (metis map_of_eq_None_iff option.distinct(1))
    with nm [OF wl(1)] have ini: "initialized (nodes st ! destination l)"
      by (simp add: initialized_def)
    have "deliver 0 st \<noteq> None"
      using k t ini by (simp add: deliver_def Let_def split: sum.splits option.splits)
    then have "step (Deliver 0) st \<noteq> None" by (simp add: step_def)
    with n show False by simp
  qed
  with all show ?thesis by (simp add: quiescent_def)
qed

lemma wf_steps:
  assumes wf: "runnable names costs"
  shows "wf {(st', st). reachable names costs st \<and> (\<exists>ev. step ev st = Some st')}"
proof (rule wf_subset [OF wf_progress_rel])
  show "{(st', st). reachable names costs st \<and> (\<exists>ev. step ev st = Some st')} \<subseteq> progress_rel"
    using step_inv(2) [OF wf reachable_inv [OF wf]] by blast
qed

lemma run_to_quiescent:
  assumes wf: "runnable names costs"
  shows "reachable names costs st \<Longrightarrow> \<exists>evs st'. run evs st = Some st' \<and> quiescent st'"
proof (induction st rule: wf_induct_rule [OF wf_steps [OF wf]])
  case (1 st)
  show ?case
  proof (cases "\<forall>ev. step ev st = None")
    case True
    from no_step_quiescent [OF wf reachable_inv [OF wf "1.prems"] True]
    have "run [] st = Some st \<and> quiescent st" by simp
    then show ?thesis by blast
  next
    case False
    then obtain ev st1 where s: "step ev st = Some st1" by auto
    from reachable_step [OF "1.prems" s] have r1: "reachable names costs st1" .
    from "1.IH" [OF _ r1] "1.prems" s obtain evs st' where
      "run evs st1 = Some st'" "quiescent st'" by blast
    with s have "run (ev # evs) st = Some st' \<and> quiescent st'" by simp
    then show ?thesis by blast
  qed
qed

lemma no_infinite_run:
  assumes wf: "runnable names costs"
  shows "\<not> (\<exists>sts. sts 0 = projr (Network_init names costs) \<and>
              (\<forall>n. \<exists>ev. step ev (sts n) = Some (sts (Suc n))))"
proof
  assume "\<exists>sts. sts 0 = projr (Network_init names costs) \<and>
              (\<forall>n. \<exists>ev. step ev (sts n) = Some (sts (Suc n)))"
  then obtain sts where s0: "sts 0 = projr (Network_init names costs)"
    and st: "\<And>n. \<exists>ev. step ev (sts n) = Some (sts (Suc n))" by blast
  have r: "reachable names costs (sts n)" for n
  proof (induction n)
    case 0
    have "run [] (projr (Network_init names costs)) = Some (sts 0)" by (simp add: s0)
    then show ?case unfolding reachable_def by blast
  next
    case (Suc n)
    from st [of n] obtain ev where "step ev (sts n) = Some (sts (Suc n))" by blast
    from reachable_step [OF Suc this] show ?case .
  qed
  have "\<forall>i. (sts (Suc i), sts i) \<in> {(st', st). reachable names costs st \<and> (\<exists>ev. step ev st = Some st')}"
    using r st by simp
  with wf_steps [OF wf] show False
    unfolding wf_iff_no_infinite_down_chain by blast
qed

lemma correct_stable:
  assumes wf: "runnable names costs" and inv: "net_inv names costs st"
    and c: "tables_correct names costs st" and s: "step ev st = Some st'"
  shows "nodes st' = nodes st"
proof (cases ev)
  case Start
  let ?rs0 = "Network_init_nodes names costs"
  from inv have so: "static_ok names costs st" and to: "tables_ok names costs st"
    by (simp_all add: net_inv_def)
  from s Start so have u: "started st < length names"
    by (simp add: step_def Network_dvr_start_step_def static_ok_def split: if_splits)
  with to have "dv (nodes st ! started st) = []" by (simp add: tables_ok_def)
  with c u have "\<not> (\<exists>p. is_path ?rs0 (started st) p (started st))"
    unfolding tables_correct_def by (auto dest!: spec [of _ "started st"])
  moreover have "is_path ?rs0 (started st) [] (started st)"
    using u by (simp add: Network_init_nodes_props(1))
  ultimately show ?thesis by blast
next
  case (Deliver k)
  let ?rs0 = "Network_init_nodes names costs"
  from wf have dn: "distinct names" by (simp add: runnable_def well_formed_def)
  from inv have so: "static_ok names costs st" and to: "tables_ok names costs st"
    by (simp_all add: net_inv_def)
  from so have sl: "started st \<le> length names" by (simp add: static_ok_def)
  from s Deliver obtain e where d: "deliver k st = Some (e, st')" by (auto simp: step_def)
  from deliver_facts [OF wf inv d] obtain l j d' ch where
    k: "k < length (threads st)" and t: "threads st ! k = (l, (names ! j, j))"
    and j: "j < started st" and l: "l \<in> set (links (?rs0 ! j))"
    and i: "destination l < started st" and ij: "destination l \<noteq> j"
    and rd: "receive_dv (dv (nodes st ! destination l)) (names ! j, dv (nodes st ! j)) = Inr (d', ch)"
    and nodes': "nodes st' = (nodes st)[destination l := (nodes st ! destination l)\<lparr>dv := d'\<rparr>]"
    and thr: "threads st' = take k (threads st) @ drop (Suc k) (threads st) @
       (if ch then map (\<lambda>l'. (l', (names ! destination l, destination l)))
                       (links (?rs0 ! destination l)) else [])"
    and st: "started st' = started st"
    and lcl: "\<exists>lc h. map_of (dv (nodes st ! destination l)) (names ! j) = Some (lc, h) \<and> lc \<le> cost l"
    by blast
  let ?i = "destination l"
  from i j sl have il: "?i < length names" and jl: "j < length names" by simp_all
  from to i il have ti: "table_ok names costs ?i (dv (nodes st ! ?i))" by (simp add: tables_ok_def)
  from to j jl have tj: "table_ok names costs j (dv (nodes st ! j))" by (simp add: tables_ok_def)
  from rd obtain lc h0 where lc: "map_of (dv (nodes st ! ?i)) (names ! j) = Some (lc, h0)"
    and f: "foldl (relax (names ! j) lc) (dv (nodes st ! ?i), False) (dv (nodes st ! j)) = (d', ch)"
    by (auto simp: receive_dv_def split: option.splits)
  from lc have "(names ! j, (lc, h0)) \<in> set (dv (nodes st ! ?i))" by (rule map_of_SomeD)
  from table_ok_sound [OF ti this] obtain v p1 where
    v: "v < length names" "names ! j = names ! v" and p1: "is_path ?rs0 ?i p1 v" "path_cost p1 = lc"
    by blast
  from inj_names [OF dn jl v(1) v(2)] p1 have p1: "is_path ?rs0 ?i p1 j" "path_cost p1 = lc" by simp_all
  have "\<forall>(x, (c, nh)) \<in> set (dv (nodes st ! j)).
          (case map_of (dv (nodes st ! ?i)) x of None \<Rightarrow> False | Some (c0, h0) \<Rightarrow> \<not> lc + c < c0)"
  proof clarify
    fix x c nh assume "(x, (c, nh)) \<in> set (dv (nodes st ! j))"
    from table_ok_sound [OF tj this] obtain w p2 where
      w: "w < length names" "x = names ! w" "is_path ?rs0 j p2 w" "path_cost p2 = c" by blast
    from is_path_append [OF p1(1) w(3)] have p: "is_path ?rs0 ?i (p1 @ p2) w" .
    from c il w(1) have cc: "case map_of (dv (nodes st ! ?i)) (names ! w) of
           None \<Rightarrow> \<not> (\<exists>p. is_path ?rs0 ?i p w)
         | Some (c0, h) \<Rightarrow> shortest_cost ?rs0 ?i w c0"
      unfolding tables_correct_def by blast
    show "case map_of (dv (nodes st ! ?i)) x of None \<Rightarrow> False | Some (c0, h0) \<Rightarrow> \<not> lc + c < c0"
    proof (cases "map_of (dv (nodes st ! ?i)) (names ! w)")
      case None
      with cc p show ?thesis by auto
    next
      case (Some e0)
      obtain c0 h where e0: "e0 = (c0, h)" by (cases e0)
      from cc Some e0 have "shortest_cost ?rs0 ?i w c0" by simp
      with p have "c0 \<le> path_cost (p1 @ p2)" unfolding shortest_cost_def by blast
      with p1(2) w(4) have "\<not> lc + c < c0" by simp
      with Some e0 w(2) show ?thesis by simp
    qed
  qed
  from foldl_relax_unchanged [OF this, of "names ! j" False] f
  have "d' = dv (nodes st ! ?i)" by simp
  then show ?thesis by (simp add: nodes')
qed

text \<open>
  Convergence of the uninterrupted executions. For every runnable topology, as long
  as every call of \<^verbatim>\<open>receive\<close> runs from its first to its last statement with no other
  thread in between: no execution runs forever; every reachable state can be
  continued to a state in which all Routers are started and no thread is pending;
  these are exactly the states without a further step; in each of them every table
  holds, for every Router that can be reached, the shortest-path cost in the weighted
  graph (and no entry for a Router that cannot be reached); and from a state whose
  tables hold the shortest-path costs no step changes any table. The executions in
  which threads interleave inside \<^verbatim>\<open>receive\<close> are not covered: see the next subsection.
\<close>

theorem uninterrupted_convergence:
  assumes "runnable node_names costs"
  shows "\<not> (\<exists>sts. sts 0 = projr (Network_init node_names costs) \<and>
              (\<forall>n. \<exists>ev. step ev (sts n) = Some (sts (Suc n)))) \<and>
         (\<forall>st. reachable node_names costs st \<longrightarrow>
            (\<exists>evs st'. run evs st = Some st' \<and> quiescent st') \<and>
            ((\<forall>ev. step ev st = None) \<longleftrightarrow> quiescent st) \<and>
            (quiescent st \<longrightarrow> tables_correct node_names costs st) \<and>
            (tables_correct node_names costs st \<longrightarrow>
               (\<forall>ev st'. step ev st = Some st' \<longrightarrow> nodes st' = nodes st)))"
proof (intro conjI allI impI)
  show "\<not> (\<exists>sts. sts 0 = projr (Network_init node_names costs) \<and>
              (\<forall>n. \<exists>ev. step ev (sts n) = Some (sts (Suc n))))"
    by (rule no_infinite_run [OF assms])
next
  fix st assume r: "reachable node_names costs st"
  show "\<exists>evs st'. run evs st = Some st' \<and> quiescent st'"
    by (rule run_to_quiescent [OF assms r])
  show "(\<forall>ev. step ev st = None) \<longleftrightarrow> quiescent st"
    using no_step_quiescent [OF assms reachable_inv [OF assms r]] quiescent_no_step by blast
  { assume "quiescent st"
    then show "tables_correct node_names costs st"
      by (rule quiescent_correct [OF assms reachable_inv [OF assms r]]) }
  { fix ev st' assume "tables_correct node_names costs st" and "step ev st = Some st'"
    then show "nodes st' = nodes st"
      by (rule correct_stable [OF assms reachable_inv [OF assms r]]) }
qed

text \<open>
  The uninterrupted execution \<open>main_events\<close> of the program's own network ends with
  all Routers started and no thread pending; the tables are the expected ones (from
  A: B 1, C 3, D 2, E 4), and they hold the shortest-path costs.
\<close>

theorem uninterrupted_convergence_witness:
  "runnable [''A'', ''B'', ''C'', ''D'', ''E'']
      [Some 1, Some 6, None, None, Some 2, Some 1, None, Some 3, Some 7, Some 2] \<and>
   run main_events (projr main_network) = Some main_final \<and>
   quiescent main_final \<and>
   map dv (nodes main_final) =
     [[(''A'', 0, None), (''B'', 1, Some ''B''), (''C'', 3, Some ''B''),
       (''D'', 2, Some ''B''), (''E'', 4, Some ''B'')],
      [(''B'', 0, None), (''A'', 1, Some ''A''), (''C'', 2, Some ''C''),
       (''D'', 1, Some ''D''), (''E'', 3, Some ''D'')],
      [(''C'', 0, None), (''A'', 3, Some ''B''), (''B'', 2, Some ''B''),
       (''D'', 3, Some ''D''), (''E'', 5, Some ''D'')],
      [(''D'', 0, None), (''B'', 1, Some ''B''), (''C'', 3, Some ''C''),
       (''E'', 2, Some ''E''), (''A'', 2, Some ''B'')],
      [(''E'', 0, None), (''C'', 5, Some ''D''), (''D'', 2, Some ''D''),
       (''A'', 4, Some ''D''), (''B'', 3, Some ''D'')]] \<and>
   tables_correct [''A'', ''B'', ''C'', ''D'', ''E'']
      [Some 1, Some 6, None, None, Some 2, Some 1, None, Some 3, Some 7, Some 2] main_final \<and>
   shortest_cost (nodes (projr main_network)) 0 4 4"
proof -
  let ?names = "[''A'', ''B'', ''C'', ''D'', ''E'']"
  let ?costs = "[Some 1, Some 6, None, None, Some 2, Some 1, None, Some 3, Some 7, Some 2 :: int option]"
  let ?tables = "[[(''A'', 0::int, None), (''B'', 1, Some ''B''), (''C'', 3, Some ''B''),
       (''D'', 2, Some ''B''), (''E'', 4, Some ''B'')],
      [(''B'', 0, None), (''A'', 1, Some ''A''), (''C'', 2, Some ''C''),
       (''D'', 1, Some ''D''), (''E'', 3, Some ''D'')],
      [(''C'', 0, None), (''A'', 3, Some ''B''), (''B'', 2, Some ''B''),
       (''D'', 3, Some ''D''), (''E'', 5, Some ''D'')],
      [(''D'', 0, None), (''B'', 1, Some ''B''), (''C'', 3, Some ''C''),
       (''E'', 2, Some ''E''), (''A'', 2, Some ''B'')],
      [(''E'', 0, None), (''C'', 5, Some ''D''), (''D'', 2, Some ''D''),
       (''A'', 4, Some ''D''), (''B'', 3, Some ''D'')]]"
  have w: "runnable ?names ?costs" by code_simp
  have e: "map_option (\<lambda>s. (started s, length (nodes s), threads s, map dv (nodes s)))
             (run main_events (projr main_network)) = Some (5, 5, [], ?tables)"
    by code_simp
  then obtain x where x: "run main_events (projr main_network) = Some x" by auto
  then have r: "run main_events (projr main_network) = Some main_final"
    by (simp add: main_final_def)
  from e r have q: "quiescent main_final" by (simp add: quiescent_def)
  from e r have t: "map dv (nodes main_final) = ?tables" by simp
  from r have re: "reachable ?names ?costs main_final"
    unfolding reachable_def main_network_def by blast
  from uninterrupted_convergence [OF w] re q have c: "tables_correct ?names ?costs main_final" by blast
  have n: "nodes (projr main_network) = Network_init_nodes ?names ?costs"
    by (simp add: main_network_def Network_init_def)
  have "dv (nodes main_final ! 0) = map dv (nodes main_final) ! 0"
    by (rule nth_map [symmetric]) (simp add: arg_cong [OF t, of length, simplified])
  then have "map_of (dv (nodes main_final ! 0)) (?names ! 4) = Some (4, Some ''B'')"
    unfolding t by simp
  with c [unfolded tables_correct_def, rule_format, of 0 4]
  have "shortest_cost (Network_init_nodes ?names ?costs) 0 4 4" by simp
  with w r q t c n show ?thesis by simp
qed

subsection \<open>Interleaved executions\<close>

lemma fine_run_append:
  "fine_run (xs @ ys) fs =
     (case fine_run xs fs of
        None \<Rightarrow> None
      | Some (es, fs') \<Rightarrow>
          (case fine_run ys fs' of
             None \<Rightarrow> None
           | Some (es', fs'') \<Rightarrow> Some (es @ es', fs'')))"
  by (induction xs arbitrary: fs) (auto split: option.splits prod.splits)

lemma iterate_yield:
  assumes "running fs = [act]"
    and "length (dv (nodes (sim fs) ! a_received act)) = a_used act"
    and "a_position act < a_used act"
    and "relax (a_sender act) (a_link_cost act) (dv (nodes (sim fs) ! a_receiver act), a_changed act)
           (dv (nodes (sim fs) ! a_received act) ! a_position act) = (d', ch)"
  shows "iterate 0 fs =
           Some (None,
             \<lparr>sim = (sim fs)\<lparr>nodes := (nodes (sim fs))[a_receiver act :=
                                        (nodes (sim fs) ! a_receiver act)\<lparr>dv := d'\<rparr>]\<rparr>,
              running = [act\<lparr>a_changed := ch, a_position := Suc (a_position act)\<rparr>]\<rparr>)"
  using assms by (simp add: iterate_def Let_def)

lemma iterate_exhausted:
  assumes "running fs = [act]"
    and "length (dv (nodes (sim fs) ! a_received act)) = a_used act"
    and "a_position act = a_used act"
  shows "iterate 0 fs =
           Some (None,
             \<lparr>sim = (if a_changed act
                     then broadcast_dv (a_receiver act)
                            ((sim fs)\<lparr>console := console (sim fs) @
                                 log_dv (name (nodes (sim fs) ! a_receiver act))
                                        (dv (nodes (sim fs) ! a_receiver act))\<rparr>)
                     else sim fs),
              running = []\<rparr>)"
  using assms by (simp add: iterate_def Let_def)

lemma loop_state_step:
  assumes i: "i < length (nodes st)" and ne: "ref \<noteq> i" and p: "p < length (dv (nodes st ! ref))"
  shows "iterate 0 (loop_state st i s ref lc p) = Some (None, loop_state st i s ref lc (Suc p))"
proof -
  let ?rcv = "dv (nodes st ! ref)"
  obtain d ch where f: "foldl (relax s lc) (dv (nodes st ! i), False) (take p ?rcv) = (d, ch)"
    by (cases "foldl (relax s lc) (dv (nodes st ! i), False) (take p ?rcv)")
  obtain d' ch' where r: "relax s lc (d, ch) (?rcv ! p) = (d', ch')"
    by (cases "relax s lc (d, ch) (?rcv ! p)")
  have f': "foldl (relax s lc) (dv (nodes st ! i), False) (take (Suc p) ?rcv) = (d', ch')"
    using p f r by (simp add: take_Suc_conv_app_nth)
  let ?fs = "loop_state st i s ref lc p"
  let ?act = "\<lparr>a_receiver = i, a_sender = s, a_received = ref, a_link_cost = lc,
                a_changed = ch, a_position = p, a_used = length ?rcv\<rparr>"
  have fs: "?fs = \<lparr>sim = st\<lparr>nodes := (nodes st)[i := (nodes st ! i)\<lparr>dv := d\<rparr>]\<rparr>, running = [?act]\<rparr>"
    by (simp add: loop_state_def f)
  have 1: "running ?fs = [?act]" by (simp add: fs)
  have 2: "length (dv (nodes (sim ?fs) ! a_received ?act)) = a_used ?act"
    using ne by (simp add: fs)
  have 3: "a_position ?act < a_used ?act" using p by simp
  have 4: "relax (a_sender ?act) (a_link_cost ?act) (dv (nodes (sim ?fs) ! a_receiver ?act), a_changed ?act)
           (dv (nodes (sim ?fs) ! a_received ?act) ! a_position ?act) = (d', ch')"
    using i ne r by (simp add: fs)
  have "iterate 0 ?fs =
           Some (None,
             \<lparr>sim = (sim ?fs)\<lparr>nodes := (nodes (sim ?fs))[a_receiver ?act :=
                                        (nodes (sim ?fs) ! a_receiver ?act)\<lparr>dv := d'\<rparr>]\<rparr>,
              running = [?act\<lparr>a_changed := ch', a_position := Suc (a_position ?act)\<rparr>]\<rparr>)"
    by (rule iterate_yield [OF 1 2 3 4])
  also have "\<dots> = Some (None, loop_state st i s ref lc (Suc p))"
    using i by (simp add: loop_state_def f f')
  finally show ?thesis .
qed

lemma loop_state_run:
  assumes i: "i < length (nodes st)" and ne: "ref \<noteq> i"
  shows "p + m = length (dv (nodes st ! ref)) \<Longrightarrow>
         fine_run (replicate m (Iterate 0)) (loop_state st i s ref lc p) =
           Some ([], loop_state st i s ref lc (length (dv (nodes st ! ref))))"
proof (induction m arbitrary: p)
  case 0
  then show ?case by simp
next
  case (Suc m)
  then have p: "p < length (dv (nodes st ! ref))" and s: "Suc p + m = length (dv (nodes st ! ref))"
    by simp_all
  from loop_state_step [OF i ne p, of s lc] Suc.IH [OF s] show ?case
    by (simp add: fine_step_def)
qed

lemma loop_state_finish:
  assumes i: "i < length (nodes st)" and ne: "ref \<noteq> i"
    and f: "foldl (relax s lc) (dv (nodes st ! i), False) (dv (nodes st ! ref)) = (d', ch)"
  shows "iterate 0 (loop_state st i s ref lc (length (dv (nodes st ! ref)))) =
           Some (None,
             \<lparr>sim = (let st1 = st\<lparr>nodes := (nodes st)[i := (nodes st ! i)\<lparr>dv := d'\<rparr>]\<rparr> in
                     if ch then broadcast_dv i (st1\<lparr>console := console st1 @ log_dv (name (nodes st ! i)) d'\<rparr>)
                     else st1),
              running = []\<rparr>)"
proof -
  let ?rcv = "dv (nodes st ! ref)"
  let ?fs = "loop_state st i s ref lc (length ?rcv)"
  let ?act = "\<lparr>a_receiver = i, a_sender = s, a_received = ref, a_link_cost = lc,
                a_changed = ch, a_position = length ?rcv, a_used = length ?rcv\<rparr>"
  have fs: "?fs = \<lparr>sim = st\<lparr>nodes := (nodes st)[i := (nodes st ! i)\<lparr>dv := d'\<rparr>]\<rparr>, running = [?act]\<rparr>"
    by (simp add: loop_state_def f)
  have 1: "running ?fs = [?act]" by (simp add: fs)
  have 2: "length (dv (nodes (sim ?fs) ! a_received ?act)) = a_used ?act"
    using ne by (simp add: fs)
  have 3: "a_position ?act = a_used ?act" by simp
  show ?thesis
    unfolding iterate_exhausted [OF 1 2 3] using i by (simp add: fs Let_def)
qed

text \<open>
  The uninterrupted call is one of the interleaved executions: whenever \<open>deliver\<close>
  gives a result for a thread whose datagram is not the table of its own destination,
  entering \<^verbatim>\<open>receive\<close> and running the loop to its end with no other step in between
  gives the same state and the same exception.
\<close>

lemma deliver_is_fine_run:
  assumes d: "deliver k st = Some (e, st')"
    and t: "threads st ! k = (l, (s, ref))"
    and ne: "ref \<noteq> destination l" and il: "destination l < length (nodes st)"
  shows "fine_run (Enter k # (case e of None \<Rightarrow> replicate (Suc (length (dv (nodes st ! ref)))) (Iterate 0)
                                    | Some x \<Rightarrow> []))
                  \<lparr>sim = st, running = []\<rparr> =
           Some ((case e of None \<Rightarrow> [] | Some x \<Rightarrow> [x]), \<lparr>sim = st', running = []\<rparr>)"
proof -
  let ?i = "destination l"
  let ?st0 = "st\<lparr>threads := take k (threads st) @ drop (Suc k) (threads st)\<rparr>"
  let ?fs = "\<lparr>sim = st, running = []\<rparr>"
  from d have k: "k < length (threads st)" by (simp add: deliver_def split: if_splits)
  show ?thesis
  proof (cases "sleep (cost l)")
    case (Some x)
    with d k t have "e = Some x" "st' = ?st0" by (simp_all add: deliver_def Let_def)
    moreover from Some k t have "enter k ?fs = Some (Some x, \<lparr>sim = ?st0, running = []\<rparr>)"
      by (simp add: enter_def Let_def)
    ultimately show ?thesis by (simp add: fine_step_def)
  next
    case None
    with d k t have ini: "initialized (nodes st ! ?i)"
      and r: "(case receive ?i (s, ref) ?st0 of Inl e' \<Rightarrow> Some (Some e', ?st0) | Inr st'' \<Rightarrow> Some (None, st''))
              = Some (e, st')"
      by (simp_all add: deliver_def Let_def split: if_splits)
    show ?thesis
    proof (cases "map_of (dv (nodes st ! ?i)) s")
      case n: None
      then have "receive ?i (s, ref) ?st0 = Inl (KeyError s)"
        by (simp add: receive_def receive_dv_def)
      with r have "e = Some (KeyError s)" "st' = ?st0" by simp_all
      moreover from None n ini k t have "enter k ?fs = Some (Some (KeyError s), \<lparr>sim = ?st0, running = []\<rparr>)"
        by (simp add: enter_def Let_def locked_def)
      ultimately show ?thesis by (simp add: fine_step_def)
    next
      case (Some v)
      obtain lc h where v: "v = (lc, h)" by (cases v)
      let ?rcv = "dv (nodes st ! ref)"
      obtain d' ch where f: "foldl (relax s lc) (dv (nodes st ! ?i), False) ?rcv = (d', ch)"
        by (cases "foldl (relax s lc) (dv (nodes st ! ?i), False) ?rcv")
      let ?res = "let st1 = ?st0\<lparr>nodes := (nodes ?st0)[?i := (nodes ?st0 ! ?i)\<lparr>dv := d'\<rparr>]\<rparr> in
                     if ch then broadcast_dv ?i (st1\<lparr>console := console st1 @ log_dv (name (nodes ?st0 ! ?i)) d'\<rparr>)
                     else st1"
      have "receive ?i (s, ref) ?st0 = Inr ?res"
        using Some v f by (simp add: receive_def receive_dv_def Let_def)
      with r have e: "e = None" and st': "st' = ?res" by simp_all
      have en: "enter k ?fs = Some (None, loop_state ?st0 ?i s ref lc 0)"
        using None Some v ini k t il by (simp add: enter_def Let_def locked_def loop_state_def)
      have il0: "?i < length (nodes ?st0)" using il by simp
      have run: "fine_run (replicate (length ?rcv) (Iterate 0)) (loop_state ?st0 ?i s ref lc 0) =
           Some ([], loop_state ?st0 ?i s ref lc (length ?rcv))"
        using loop_state_run [OF il0 ne, of 0 "length ?rcv" s lc] by simp
      have f0: "foldl (relax s lc) (dv (nodes ?st0 ! ?i), False) (dv (nodes ?st0 ! ref)) = (d', ch)"
        using f by simp
      have fin: "iterate 0 (loop_state ?st0 ?i s ref lc (length ?rcv)) =
           Some (None, \<lparr>sim = ?res, running = []\<rparr>)"
        using loop_state_finish [OF il0 ne f0] by simp
      have split: "replicate (Suc (length ?rcv)) (Iterate 0) = replicate (length ?rcv) (Iterate 0) @ [Iterate 0]"
        by (simp add: replicate_append_same)
      have inner: "fine_run (replicate (Suc (length ?rcv)) (Iterate 0)) (loop_state ?st0 ?i s ref lc 0) =
                     Some ([], \<lparr>sim = ?res, running = []\<rparr>)"
        unfolding split fine_run_append run by (simp add: fine_step_def fin)
      have "fine_run (Enter k # replicate (Suc (length ?rcv)) (Iterate 0)) ?fs =
              Some ([], \<lparr>sim = ?res, running = []\<rparr>)"
        by (simp add: fine_step_def en inner del: replicate.simps)
      then show ?thesis by (simp add: e st')
    qed
  qed
qed

text \<open>
  Once all Routers are started, no thread is pending and no \<^verbatim>\<open>receive\<close> is running,
  nothing more happens.
\<close>

lemma fine_quiescent_no_step:
  assumes "quiescent (sim fs)" and "running fs = []"
  shows "fine_step ev fs = None"
  using assms
  by (cases ev)
     (simp_all add: fine_step_def quiescent_def Network_dvr_start_step_def enter_def iterate_def)

lemma line_run:
  "map_option (\<lambda>(es, fs). (es, length (running fs), started (sim fs), length (nodes (sim fs)),
                            threads (sim fs), map dv (nodes (sim fs))))
     (fine_run line_events line_network) =
   Some ([RuntimeError], 0, 4, 4, [],
     [[(''P'', 0, None), (''S'', 1, Some ''S''), (''R'', 2, Some ''S''), (''T'', 3, Some ''S'')],
      [(''S'', 0, None), (''P'', 1, Some ''P''), (''R'', 1, Some ''R''), (''T'', 2, Some ''R'')],
      [(''R'', 0, None), (''S'', 1, Some ''S''), (''T'', 1, Some ''T''), (''P'', 2, Some ''S'')],
      [(''T'', 0, None), (''R'', 1, Some ''R''), (''S'', 2, Some ''R'')]])"
  by code_simp

lemma line_final_props:
  "fine_run line_events line_network = Some ([RuntimeError], line_final)"
  "running line_final = []" "quiescent (sim line_final)"
  "map dv (nodes (sim line_final)) =
     [[(''P'', 0, None), (''S'', 1, Some ''S''), (''R'', 2, Some ''S''), (''T'', 3, Some ''S'')],
      [(''S'', 0, None), (''P'', 1, Some ''P''), (''R'', 1, Some ''R''), (''T'', 2, Some ''R'')],
      [(''R'', 0, None), (''S'', 1, Some ''S''), (''T'', 1, Some ''T''), (''P'', 2, Some ''S'')],
      [(''T'', 0, None), (''R'', 1, Some ''R''), (''S'', 2, Some ''R'')]]"
  "length (nodes (sim line_final)) = 4"
proof -
  from line_run obtain es fs where r: "fine_run line_events line_network = Some (es, fs)"
    by (cases "fine_run line_events line_network") auto
  then have f: "line_final = fs" by (simp add: line_final_def)
  from line_run r f show "fine_run line_events line_network = Some ([RuntimeError], line_final)"
    by simp
  from line_run r f show "running line_final = []" by simp
  from line_run r f show "quiescent (sim line_final)" by (simp add: quiescent_def)
  from line_run r f show "map dv (nodes (sim line_final)) =
     [[(''P'', 0, None), (''S'', 1, Some ''S''), (''R'', 2, Some ''S''), (''T'', 3, Some ''S'')],
      [(''S'', 0, None), (''P'', 1, Some ''P''), (''R'', 1, Some ''R''), (''T'', 2, Some ''R'')],
      [(''R'', 0, None), (''S'', 1, Some ''S''), (''T'', 1, Some ''T''), (''P'', 2, Some ''S'')],
      [(''T'', 0, None), (''R'', 1, Some ''R''), (''S'', 2, Some ''R'')]]" by simp
  from line_run r f show "length (nodes (sim line_final)) = 4" by simp
qed

lemma line_final_T: "dv (nodes (sim line_final) ! 3) = [(''T'', 0, None), (''R'', 1, Some ''R''), (''S'', 2, Some ''R'')]"
proof -
  have "dv (nodes (sim line_final) ! 3) = map dv (nodes (sim line_final)) ! 3"
    by (rule nth_map [symmetric]) (simp add: line_final_props(5))
  then show ?thesis unfolding line_final_props(4) by simp
qed

lemma line_well_formed:
  "well_formed [''P'', ''S'', ''R'', ''T''] [Some 1, None, None, Some 1, None, Some 1]"
  "runnable [''P'', ''S'', ''R'', ''T''] [Some 1, None, None, Some 1, None, Some 1]"
  by code_simp+

lemma line_path:
  "is_path (nodes (sim line_network)) 3
     [\<lparr>cost = 1, destination = 2\<rparr>, \<lparr>cost = 1, destination = 1\<rparr>, \<lparr>cost = 1, destination = 0\<rparr>] 0"
  "is_path (Network_init_nodes [''P'', ''S'', ''R'', ''T''] [Some 1, None, None, Some 1, None, Some 1]) 3
     [\<lparr>cost = 1, destination = 2\<rparr>, \<lparr>cost = 1, destination = 1\<rparr>, \<lparr>cost = 1, destination = 0\<rparr>] 0"
  by code_simp+

text \<open>
  C2 fails on the code. The line P - S - R - T with all costs 1 is a well-formed
  topology. In the execution \<open>line_events\<close> the \<^verbatim>\<open>receive\<close> of R on the datagram of S
  writes the entry for P and is then ended by \<^verbatim>\<open>RuntimeError\<close>, because S has added
  an entry to the dict the loop iterates over; the new entry of R is neither logged nor
  broadcast. The execution ends with all Routers started, no thread pending, no
  \<^verbatim>\<open>receive\<close> running and no further step possible, and the table of T has no entry
  for P, although P is reachable from T over three links, at cost 3.
\<close>

theorem interrupted_receive_loses_route:
  "well_formed [''P'', ''S'', ''R'', ''T''] [Some 1, None, None, Some 1, None, Some 1] \<and>
   fine_run line_events line_network = Some ([RuntimeError], line_final) \<and>
   running line_final = [] \<and> quiescent (sim line_final) \<and>
   (\<forall>ev. fine_step ev line_final = None) \<and>
   map dv (nodes (sim line_final)) =
     [[(''P'', 0, None), (''S'', 1, Some ''S''), (''R'', 2, Some ''S''), (''T'', 3, Some ''S'')],
      [(''S'', 0, None), (''P'', 1, Some ''P''), (''R'', 1, Some ''R''), (''T'', 2, Some ''R'')],
      [(''R'', 0, None), (''S'', 1, Some ''S''), (''T'', 1, Some ''T''), (''P'', 2, Some ''S'')],
      [(''T'', 0, None), (''R'', 1, Some ''R''), (''S'', 2, Some ''R'')]] \<and>
   map_of (dv (nodes (sim line_final) ! 3)) ''P'' = None \<and>
   is_path (nodes (sim line_network)) 3
     [\<lparr>cost = 1, destination = 2\<rparr>, \<lparr>cost = 1, destination = 1\<rparr>, \<lparr>cost = 1, destination = 0\<rparr>] 0"
  using line_well_formed(1) line_final_props(1-4) line_path(1)
    fine_quiescent_no_step [OF line_final_props(3,2)]
  by (simp add: line_final_T)

text \<open>So the tables of that final state are not the shortest-path tables.\<close>

lemma line_tables_incorrect:
  "\<not> tables_correct [''P'', ''S'', ''R'', ''T''] [Some 1, None, None, Some 1, None, Some 1] (sim line_final)"
proof
  assume "tables_correct [''P'', ''S'', ''R'', ''T''] [Some 1, None, None, Some 1, None, Some 1] (sim line_final)"
  from this [unfolded tables_correct_def, rule_format, of 3 0]
  have "\<not> (\<exists>p. is_path (Network_init_nodes [''P'', ''S'', ''R'', ''T'']
                            [Some 1, None, None, Some 1, None, Some 1]) 3 p 0)"
    by (simp add: line_final_T)
  with line_path(2) show False by blast
qed

lemma far_run:
  "map_option (\<lambda>(es, fs). (es, length (running fs), started (sim fs), length (nodes (sim fs)),
                            threads (sim fs), map dv (nodes (sim fs))))
     (fine_run far_events far_network) =
   Some ([OverflowError, OverflowError, OverflowError, OverflowError], 0, 3, 3, [],
     [[(''A'', 0, None), (''B'', 10000000000, Some ''B'')],
      [(''B'', 0, None), (''A'', 10000000000, Some ''A''), (''C'', 10000000000, Some ''C'')],
      [(''C'', 0, None), (''B'', 10000000000, Some ''B'')]])"
  by code_simp

lemma far_well_formed:
  "well_formed [''A'', ''B'', ''C''] [Some 10000000000, None, Some 10000000000]"
  by code_simp

lemma far_final_props:
  "fine_run far_events far_network =
     Some ([OverflowError, OverflowError, OverflowError, OverflowError], far_final)"
  "running far_final = []" "quiescent (sim far_final)"
  "map dv (nodes (sim far_final)) =
     [[(''A'', 0, None), (''B'', 10000000000, Some ''B'')],
      [(''B'', 0, None), (''A'', 10000000000, Some ''A''), (''C'', 10000000000, Some ''C'')],
      [(''C'', 0, None), (''B'', 10000000000, Some ''B'')]]"
proof -
  from far_run obtain es fs where r: "fine_run far_events far_network = Some (es, fs)"
    by (cases "fine_run far_events far_network") auto
  then have f: "far_final = fs" by (simp add: far_final_def)
  from far_run r f show "fine_run far_events far_network =
     Some ([OverflowError, OverflowError, OverflowError, OverflowError], far_final)"
    by simp
  from far_run r f show "running far_final = []" by simp
  from far_run r f show "quiescent (sim far_final)" by (simp add: quiescent_def)
  from far_run r f show "map dv (nodes (sim far_final)) =
     [[(''A'', 0, None), (''B'', 10000000000, Some ''B'')],
      [(''B'', 0, None), (''A'', 10000000000, Some ''A''), (''C'', 10000000000, Some ''C'')],
      [(''C'', 0, None), (''B'', 10000000000, Some ''B'')]]" by simp
qed

lemma far_path:
  "is_path (nodes (sim far_network)) 0
     [\<lparr>cost = 10000000000, destination = 1\<rparr>, \<lparr>cost = 10000000000, destination = 2\<rparr>] 2"
  by code_simp

text \<open>
  A cost that \<^verbatim>\<open>time.sleep\<close> refuses: on the well-formed line A - B - C with costs of
  ten thousand million every \<^verbatim>\<open>_send\<close> thread dies of \<^verbatim>\<open>OverflowError\<close> before it
  calls \<^verbatim>\<open>receive\<close>, and A never learns of C.
\<close>

lemma overflowing_cost_is_never_delivered:
  "well_formed [''A'', ''B'', ''C''] [Some 10000000000, None, Some 10000000000] \<and>
   fine_run far_events far_network =
     Some ([OverflowError, OverflowError, OverflowError, OverflowError], far_final) \<and>
   running far_final = [] \<and> quiescent (sim far_final) \<and>
   (\<forall>ev. fine_step ev far_final = None) \<and>
   map dv (nodes (sim far_final)) =
     [[(''A'', 0, None), (''B'', 10000000000, Some ''B'')],
      [(''B'', 0, None), (''A'', 10000000000, Some ''A''), (''C'', 10000000000, Some ''C'')],
      [(''C'', 0, None), (''B'', 10000000000, Some ''B'')]] \<and>
   is_path (nodes (sim far_network)) 0
     [\<lparr>cost = 10000000000, destination = 1\<rparr>, \<lparr>cost = 10000000000, destination = 2\<rparr>] 2"
  using far_well_formed far_final_props far_path
    fine_quiescent_no_step [OF far_final_props(3,2)]
  by simp

end
